theory Spec2Isabelle
  imports Main "HOL-Library.Word"
begin

unbundle bit_operations_syntax

section \<open>The regular expressions of \<^verbatim>\<open>internal/decoder/decoder.go\<close>\<close>

text \<open>
  Every pattern of the decoder has the shape \<^verbatim>\<open>%[C]*(L)\<close>: a percent sign, any number
  of characters of a class \<open>C\<close>, and one conversion letter of a set \<open>L\<close>. A pattern is
  the pair of the two character predicates. Go strings are byte sequences; all
  characters of the patterns are ASCII, so matching bytes is matching runes.
\<close>

type_synonym pattern = "(char \<Rightarrow> bool) \<times> (char \<Rightarrow> bool)"

definition digit :: "char \<Rightarrow> bool" where
  "digit c \<longleftrightarrow> c \<in> set ''0123456789''"

text \<open>\<^verbatim>\<open>%([+\-#'0-9\.0-9])*(b|c|d|e|f|g|E|F|G|h|i|l|L|n|o|O|p|q|t|u|x|X)\<close>\<close>

definition patNextFormatSpecifier :: pattern where
  "patNextFormatSpecifier =
     (\<lambda>c. c \<in> set ''+-#'' \<or> c = CHR 0x27 \<or> digit c \<or> c = CHR ''.'',
      \<lambda>c. c \<in> set ''bcdefgEFGhilLnoOpqtuxX'')"

text \<open>\<^verbatim>\<open>%[0-9]*u\<close>\<close>

definition patNextFormatUSpecifier :: pattern where
  "patNextFormatUSpecifier = (digit, \<lambda>c. c = CHR ''u'')"

text \<open>\<^verbatim>\<open>%[0-9]*i\<close>\<close>

definition patNextFormatISpecifier :: pattern where
  "patNextFormatISpecifier = (digit, \<lambda>c. c = CHR ''i'')"

text \<open>\<^verbatim>\<open>%[0-9]*(l|o|O|x|X|b|p|t)\<close>\<close>

definition patNextFormatXSpecifier :: pattern where
  "patNextFormatXSpecifier = (digit, \<lambda>c. c \<in> set ''loOxXbpt'')"

text \<open>\<^verbatim>\<open>%[(+\-0-9\.0-9#]*(e|E|f|F|g|G)\<close>\<close>

definition patNextFormatFSpecifier :: pattern where
  "patNextFormatFSpecifier =
     (\<lambda>c. c \<in> set ''(+-'' \<or> digit c \<or> c = CHR ''.'' \<or> c = CHR ''#'',
      \<lambda>c. c \<in> set ''eEfFgG'')"

text \<open>\<^verbatim>\<open>%t\<close> and \<^verbatim>\<open>%p\<close>: the class is empty.\<close>

definition patNextFormatBoolSpecifier :: pattern where
  "patNextFormatBoolSpecifier = (\<lambda>c. False, \<lambda>c. c = CHR ''t'')"

definition patNextFormatPointerSpecifier :: pattern where
  "patNextFormatPointerSpecifier = (\<lambda>c. False, \<lambda>c. c = CHR ''p'')"

text \<open>
  \<open>match_star_letter C L s\<close> matches \<^verbatim>\<open>[C]*(L)\<close> at the head of \<open>s\<close> the way Go's
  leftmost-first matcher does: the star is greedy, so one more character of the class
  is tried first, and the letter is tried only where the longer attempt fails. The
  result is the number of characters matched.
\<close>

fun match_star_letter :: "(char \<Rightarrow> bool) \<Rightarrow> (char \<Rightarrow> bool) \<Rightarrow> string \<Rightarrow> nat option" where
  "match_star_letter C L [] = None"
| "match_star_letter C L (c # cs) =
     (if C c then
        (case match_star_letter C L cs of
           Some n \<Rightarrow> Some (Suc n)
         | None \<Rightarrow> if L c then Some 1 else None)
      else if L c then Some 1 else None)"

fun match_here :: "pattern \<Rightarrow> string \<Rightarrow> nat option" where
  "match_here (C, L) [] = None"
| "match_here (C, L) (c # cs) =
     (if c = CHR ''%'' then map_option Suc (match_star_letter C L cs) else None)"

text \<open>
  \<^verbatim>\<open>regexp.FindStringIndex\<close>: the start and the end of the leftmost match, \<open>None\<close> for
  Go's nil.
\<close>

fun FindStringIndex :: "pattern \<Rightarrow> string \<Rightarrow> (nat \<times> nat) option" where
  "FindStringIndex p [] = None"
| "FindStringIndex p (c # cs) =
     (case match_here p (c # cs) of
        Some n \<Rightarrow> Some (0, n)
      | None \<Rightarrow> map_option (\<lambda>(a, b). (Suc a, Suc b)) (FindStringIndex p cs))"

section \<open>The specifier classifier \<^verbatim>\<open>UReplaceN\<close>\<close>

text \<open>\<^verbatim>\<open>strings.ReplaceAll(i, "%%", "__")\<close>: non-overlapping occurrences, left to right.\<close>

fun ReplaceAll :: "string \<Rightarrow> string" where
  "ReplaceAll (a # b # cs) =
     (if a = CHR ''%'' \<and> b = CHR ''%'' then CHR ''_'' # CHR ''_'' # ReplaceAll cs
      else a # ReplaceAll (b # cs))"
| "ReplaceAll cs = cs"

text \<open>A slice expression out of range makes the Go runtime panic.\<close>

datatype panic = SliceBoundsOutOfRange | IndexOutOfRange

text \<open>
  The body of the loop after \<^verbatim>\<open>fm\<close> is cut out: the chain of tests, each ending in
  \<^verbatim>\<open>continue\<close>. It returns the new \<^verbatim>\<open>o\<close> (named \<open>out\<close> here) and the kind appended
  to \<^verbatim>\<open>u\<close>.
\<close>

definition UReplaceN_body :: "bool \<Rightarrow> string \<Rightarrow> nat \<Rightarrow> string \<Rightarrow> panic + (string \<times> int)" where
  "UReplaceN_body Unsigned fm offset out =
     (if FindStringIndex patNextFormatPointerSpecifier fm \<noteq> None then Inr (out, 4)
      else if FindStringIndex patNextFormatBoolSpecifier fm \<noteq> None then Inr (out, 3)
      else if FindStringIndex patNextFormatFSpecifier fm \<noteq> None then Inr (out, 2)
      else if FindStringIndex patNextFormatUSpecifier fm \<noteq> None then
        (if offset < 1 \<or> length out < offset then Inl SliceBoundsOutOfRange
         else Inr (take (offset - 1) out @ ''d'' @ drop offset out, 0))
      else if FindStringIndex patNextFormatISpecifier fm \<noteq> None then
        (if offset < 1 \<or> length out < offset then Inl SliceBoundsOutOfRange
         else Inr (take (offset - 1) out @ ''d'' @ drop offset out, 1))
      else if FindStringIndex patNextFormatXSpecifier fm \<noteq> None then
        (if Unsigned then Inr (out, 0) else Inr (out, 1))
      else Inr (out, 1))"

lemma match_star_letter_bounds:
  "match_star_letter C L s = Some n \<Longrightarrow> 0 < n \<and> n \<le> length s"
  by (induction s arbitrary: n) (auto split: if_splits option.splits)

lemma match_here_bounds:
  "match_here p s = Some n \<Longrightarrow> 2 \<le> n \<and> n \<le> length s"
  by (cases p; cases s) (auto split: if_splits dest: match_star_letter_bounds)

lemma FindStringIndex_bounds:
  "FindStringIndex p s = Some (a, b) \<Longrightarrow> a + 2 \<le> b \<and> b \<le> length s"
  by (induction s arbitrary: a b)
     (auto split: option.splits dest: match_here_bounds)

function UReplaceN_loop ::
  "bool \<Rightarrow> string \<Rightarrow> nat \<Rightarrow> string \<Rightarrow> int list \<Rightarrow> panic + (string \<times> int list)" where
  "UReplaceN_loop Unsigned i offset out u =
     (if length i < offset then Inl SliceBoundsOutOfRange
      else
        case FindStringIndex patNextFormatSpecifier (drop offset i) of
          None \<Rightarrow> Inr (out, u)
        | Some loc \<Rightarrow>
            (case UReplaceN_body Unsigned
                    (take (snd loc - fst loc) (drop (fst loc) (drop offset i)))
                    (offset + snd loc) out of
               Inl e \<Rightarrow> Inl e
             | Inr (out', k) \<Rightarrow> UReplaceN_loop Unsigned i (offset + snd loc) out' (u @ [k])))"
  by pat_completeness auto
termination
proof (relation "measure (\<lambda>(Unsigned, i, offset, out, u). length i - offset)")
  show "wf (measure (\<lambda>(Unsigned, i, offset, out, u). length i - offset))"
    by simp
next
  fix Unsigned :: bool and i :: string and offset :: nat and out :: string
    and u :: "int list" and loc x2 x y
  assume "\<not> length i < offset"
    and "FindStringIndex patNextFormatSpecifier (drop offset i) = Some loc"
  then have "0 < snd loc \<and> snd loc \<le> length i - offset"
    using FindStringIndex_bounds [of patNextFormatSpecifier "drop offset i" "fst loc" "snd loc"]
    by simp
  then show "((Unsigned, i, offset + snd loc, x, u @ [y]), (Unsigned, i, offset, out, u))
      \<in> measure (\<lambda>(Unsigned, i, offset, out, u). length i - offset)"
    by (simp; arith)
qed

declare UReplaceN_loop.simps [simp del]

definition UReplaceN :: "bool \<Rightarrow> string \<Rightarrow> panic + (string \<times> int list)" where
  "UReplaceN Unsigned i = UReplaceN_loop Unsigned (ReplaceAll i) 0 i []"

section \<open>The directives the loop visits\<close>

text \<open>Go's \<^verbatim>\<open>s[a:b]\<close> for \<open>a \<le> b \<le> length s\<close>.\<close>

definition slice :: "'a list \<Rightarrow> nat \<Rightarrow> nat \<Rightarrow> 'a list" where
  "slice s a b = take (b - a) (drop a s)"

definition is_match :: "pattern \<Rightarrow> string \<Rightarrow> bool" where
  "is_match p fm \<longleftrightarrow> FindStringIndex p fm \<noteq> None"

text \<open>
  The successive values of \<^verbatim>\<open>loc\<close> in the loop of \<^verbatim>\<open>UReplaceN\<close>, as positions in
  the whole string: the start and the end of every match of
  \<open>patNextFormatSpecifier\<close>, each search starting where the last match ended.
  The other definitions name the outcome of the chain of tests for one \<^verbatim>\<open>fm\<close>.
\<close>

function directives :: "string \<Rightarrow> nat \<Rightarrow> (nat \<times> nat) list" where
  "directives i offset =
     (if length i < offset then []
      else
        case FindStringIndex patNextFormatSpecifier (drop offset i) of
          None \<Rightarrow> []
        | Some loc \<Rightarrow> (offset + fst loc, offset + snd loc) # directives i (offset + snd loc))"
  by pat_completeness auto
termination
proof (relation "measure (\<lambda>(i, offset). length i - offset)")
  show "wf (measure (\<lambda>(i, offset). length i - offset))"
    by simp
next
  fix i :: string and offset :: nat and loc
  assume "\<not> length i < offset"
    and "FindStringIndex patNextFormatSpecifier (drop offset i) = Some loc"
  then have "0 < snd loc \<and> snd loc \<le> length i - offset"
    using FindStringIndex_bounds [of patNextFormatSpecifier "drop offset i" "fst loc" "snd loc"]
    by simp
  then show "((i, offset + snd loc), (i, offset)) \<in> measure (\<lambda>(i, offset). length i - offset)"
    by (simp; arith)
qed

declare directives.simps [simp del]

definition kind_of :: "bool \<Rightarrow> string \<Rightarrow> int" where
  "kind_of Unsigned fm =
     (if is_match patNextFormatPointerSpecifier fm then 4
      else if is_match patNextFormatBoolSpecifier fm then 3
      else if is_match patNextFormatFSpecifier fm then 2
      else if is_match patNextFormatUSpecifier fm then 0
      else if is_match patNextFormatISpecifier fm then 1
      else if is_match patNextFormatXSpecifier fm then (if Unsigned then 0 else 1)
      else 1)"

definition is_rewritten :: "string \<Rightarrow> bool" where
  "is_rewritten fm \<longleftrightarrow>
     \<not> is_match patNextFormatPointerSpecifier fm \<and>
     \<not> is_match patNextFormatBoolSpecifier fm \<and>
     \<not> is_match patNextFormatFSpecifier fm \<and>
     (is_match patNextFormatUSpecifier fm \<or> is_match patNextFormatISpecifier fm)"

fun rewrite_all :: "string \<Rightarrow> (nat \<times> nat) list \<Rightarrow> string \<Rightarrow> string" where
  "rewrite_all i [] out = out"
| "rewrite_all i ((a, b) # ds) out =
     rewrite_all i ds (if is_rewritten (slice i a b) then out[b - 1 := CHR ''d''] else out)"

text \<open>The shape of a directive: a percent sign, flag characters, a conversion letter.\<close>

definition directive_shape :: "string \<Rightarrow> string \<Rightarrow> char \<Rightarrow> bool" where
  "directive_shape fm fl l \<longleftrightarrow>
     fm = CHR ''%'' # fl @ [l] \<and> list_all (fst patNextFormatSpecifier) fl \<and>
     snd patNextFormatSpecifier l"

text \<open>The flag characters and the conversion letter of a directive's text.\<close>

definition directive_flags :: "string \<Rightarrow> string" where
  "directive_flags fm = butlast (tl fm)"

definition directive_letter :: "string \<Rightarrow> char" where
  "directive_letter fm = last fm"

text \<open>The matches the loop of \<^verbatim>\<open>UReplaceN\<close> visits for the format string \<open>i\<close>.\<close>

definition UReplaceN_matches :: "string \<Rightarrow> (nat \<times> nat) list" where
  "UReplaceN_matches i = directives (ReplaceAll i) 0"

text \<open>
  A string that consists only of literal text and \<^verbatim>\<open>%%\<close> escapes: every percent sign
  is one of a pair.
\<close>

fun only_literal_and_escapes :: "string \<Rightarrow> bool" where
  "only_literal_and_escapes (a # b # cs) =
     (if a = CHR ''%'' then b = CHR ''%'' \<and> only_literal_and_escapes cs
      else only_literal_and_escapes (b # cs))"
| "only_literal_and_escapes [a] = (a \<noteq> CHR ''%'')"
| "only_literal_and_escapes [] = True"

section \<open>The endian reader\<close>

text \<open>
  \<^verbatim>\<open>DecoderData\<close> with the fields that hold data; the writer, the reader, the look-up
  maps and the mutex are handles of other packages. The methods \<^verbatim>\<open>ReadU16\<close>,
  \<^verbatim>\<open>ReadU32\<close> and \<^verbatim>\<open>ReadU64\<close> read the field \<^verbatim>\<open>Endian\<close> and the slice and write
  nothing, so each is a function to its result; an index out of range is the panic of
  the Go runtime.
\<close>

type_synonym byte = "8 word"

record DecoderData =
  IBuf :: "byte list"
  B :: "byte list"
  Endian :: bool
  TriceSize :: int
  ParamSpace :: int
  SLen :: int

text \<open>
  The functions of \<^verbatim>\<open>encoding/binary\<close> the methods call: a bounds check on the last
  byte read, then the bytes shifted and combined with \<^verbatim>\<open>|\<close>.
\<close>

definition LittleEndian_Uint16 :: "byte list \<Rightarrow> panic + 16 word" where
  "LittleEndian_Uint16 b =
     (if length b \<le> 1 then Inl IndexOutOfRange
      else Inr (ucast (b ! 0) OR push_bit 8 (ucast (b ! 1))))"

definition BigEndian_Uint16 :: "byte list \<Rightarrow> panic + 16 word" where
  "BigEndian_Uint16 b =
     (if length b \<le> 1 then Inl IndexOutOfRange
      else Inr (ucast (b ! 1) OR push_bit 8 (ucast (b ! 0))))"

definition LittleEndian_Uint32 :: "byte list \<Rightarrow> panic + 32 word" where
  "LittleEndian_Uint32 b =
     (if length b \<le> 3 then Inl IndexOutOfRange
      else Inr (ucast (b ! 0) OR push_bit 8 (ucast (b ! 1)) OR push_bit 16 (ucast (b ! 2)) OR
                push_bit 24 (ucast (b ! 3))))"

definition BigEndian_Uint32 :: "byte list \<Rightarrow> panic + 32 word" where
  "BigEndian_Uint32 b =
     (if length b \<le> 3 then Inl IndexOutOfRange
      else Inr (ucast (b ! 3) OR push_bit 8 (ucast (b ! 2)) OR push_bit 16 (ucast (b ! 1)) OR
                push_bit 24 (ucast (b ! 0))))"

definition LittleEndian_Uint64 :: "byte list \<Rightarrow> panic + 64 word" where
  "LittleEndian_Uint64 b =
     (if length b \<le> 7 then Inl IndexOutOfRange
      else Inr (ucast (b ! 0) OR push_bit 8 (ucast (b ! 1)) OR push_bit 16 (ucast (b ! 2)) OR
                push_bit 24 (ucast (b ! 3)) OR push_bit 32 (ucast (b ! 4)) OR
                push_bit 40 (ucast (b ! 5)) OR push_bit 48 (ucast (b ! 6)) OR
                push_bit 56 (ucast (b ! 7))))"

definition BigEndian_Uint64 :: "byte list \<Rightarrow> panic + 64 word" where
  "BigEndian_Uint64 b =
     (if length b \<le> 7 then Inl IndexOutOfRange
      else Inr (ucast (b ! 7) OR push_bit 8 (ucast (b ! 6)) OR push_bit 16 (ucast (b ! 5)) OR
                push_bit 24 (ucast (b ! 4)) OR push_bit 32 (ucast (b ! 3)) OR
                push_bit 40 (ucast (b ! 2)) OR push_bit 48 (ucast (b ! 1)) OR
                push_bit 56 (ucast (b ! 0))))"

definition ReadU16 :: "'a DecoderData_scheme \<Rightarrow> byte list \<Rightarrow> panic + 16 word" where
  "ReadU16 p b = (if Endian p then LittleEndian_Uint16 b else BigEndian_Uint16 b)"

definition ReadU32 :: "'a DecoderData_scheme \<Rightarrow> byte list \<Rightarrow> panic + 32 word" where
  "ReadU32 p b = (if Endian p then LittleEndian_Uint32 b else BigEndian_Uint32 b)"

definition ReadU64 :: "'a DecoderData_scheme \<Rightarrow> byte list \<Rightarrow> panic + 64 word" where
  "ReadU64 p b = (if Endian p then LittleEndian_Uint64 b else BigEndian_Uint64 b)"

text \<open>
  The number a byte sequence encodes, least significant byte first and most
  significant byte first.
\<close>

fun le_value :: "byte list \<Rightarrow> nat" where
  "le_value [] = 0"
| "le_value (x # xs) = unat x + 256 * le_value xs"

definition be_value :: "byte list \<Rightarrow> nat" where
  "be_value bs = le_value (rev bs)"

text \<open>The same value computed on words, for the proofs.\<close>

fun le_word :: "byte list \<Rightarrow> 'a::len word" where
  "le_word [] = 0"
| "le_word (x # xs) = ucast x OR push_bit 8 (le_word xs)"

section \<open>Facts about the patterns and the masking\<close>

lemma ReplaceAll_length: "length (ReplaceAll s) = length s"
  by (induction s rule: ReplaceAll.induct) auto

lemma ReplaceAll_no_percent: "CHR ''%'' \<notin> set s \<Longrightarrow> ReplaceAll s = s"
  by (induction s rule: ReplaceAll.induct) auto

lemma ReplaceAll_nth:
  "j < length s \<Longrightarrow> ReplaceAll s ! j = s ! j \<or> (s ! j = CHR ''%'' \<and> ReplaceAll s ! j = CHR ''_'')"
proof (induction s arbitrary: j rule: ReplaceAll.induct)
  case (1 a b cs)
  show ?case
  proof (cases "a = CHR ''%'' \<and> b = CHR ''%''")
    case True
    then show ?thesis using 1(1)[of "j - 2"] 1(3)
      by (cases j; cases "j - 1") (auto simp: nth_Cons')
  next
    case False
    then show ?thesis using 1(2)[of "j - 1"] 1(3)
      by (cases j) auto
  qed
qed auto

lemma ReplaceAll_hd:
  "ReplaceAll (b # cs) ! 0 = b \<or> (b = CHR ''%'' \<and> ReplaceAll (b # cs) ! 0 = CHR ''_'')"
  using ReplaceAll_nth [of 0 "b # cs"] by auto

lemma ReplaceAll_no_pair:
  "Suc j < length s \<Longrightarrow>
     \<not> (ReplaceAll s ! j = CHR ''%'' \<and> ReplaceAll s ! Suc j = CHR ''%'')"
proof (induction s arbitrary: j rule: ReplaceAll.induct)
  case (1 a b cs)
  show ?case
  proof (cases "a = CHR ''%'' \<and> b = CHR ''%''")
    case True
    show ?thesis
    proof (cases "j < 2")
      case True
      with \<open>a = CHR ''%'' \<and> b = CHR ''%''\<close> show ?thesis
        by (cases j) (auto simp: less_Suc_eq numeral_2_eq_2)
    next
      case False
      then obtain n where n: "j = Suc (Suc n)" by (metis less_2_cases_iff not0_implies_Suc)
      with 1(3) have "Suc n < length cs" by simp
      from 1(1) [OF True this] True n show ?thesis by simp
    qed
  next
    case False
    show ?thesis
    proof (cases j)
      case 0
      with False ReplaceAll_hd [of b cs] show ?thesis by auto
    next
      case (Suc n)
      with 1(3) have "Suc n < length (b # cs)" by simp
      from 1(2) [OF False this] False Suc show ?thesis by auto
    qed
  qed
qed auto

lemma FindStringIndex_no_percent: "CHR ''%'' \<notin> set s \<Longrightarrow> FindStringIndex p s = None"
proof (induction s)
  case Nil
  then show ?case by simp
next
  case (Cons c cs)
  obtain C L where "p = (C, L)" by (cases p)
  with Cons show ?case by auto
qed

lemma match_star_letter_shape:
  "match_star_letter C L s = Some n \<Longrightarrow>
     \<exists>fl l. take n s = fl @ [l] \<and> (\<forall>c\<in>set fl. C c) \<and> L l"
proof (induction s arbitrary: n)
  case Nil
  then show ?case by simp
next
  case (Cons c cs)
  show ?case
  proof (cases "C c \<and> match_star_letter C L cs \<noteq> None")
    case True
    then obtain m where m: "match_star_letter C L cs = Some m" by auto
    with Cons.prems True have n: "n = Suc m" by simp
    from Cons.IH [OF m] obtain fl l where "take m cs = fl @ [l]" "\<forall>c\<in>set fl. C c" "L l"
      by blast
    then have "take n (c # cs) = (c # fl) @ [l] \<and> (\<forall>x\<in>set (c # fl). C x) \<and> L l"
      using True n by simp
    then show ?thesis by blast
  next
    case False
    with Cons.prems have "n = 1 \<and> L c" by (auto split: if_splits option.splits)
    then have "take n (c # cs) = [] @ [c] \<and> (\<forall>x\<in>set []. C x) \<and> L c" by simp
    then show ?thesis by blast
  qed
qed

lemma match_here_shape:
  "match_here (C, L) s = Some n \<Longrightarrow>
     \<exists>fl l. take n s = CHR ''%'' # fl @ [l] \<and> (\<forall>c\<in>set fl. C c) \<and> L l"
proof (cases s)
  case Nil
  assume "match_here (C, L) s = Some n"
  with Nil show ?thesis by simp
next
  case (Cons c cs)
  assume a: "match_here (C, L) s = Some n"
  with Cons obtain m where m: "c = CHR ''%''" "match_star_letter C L cs = Some m" "n = Suc m"
    by (auto split: if_splits)
  from match_star_letter_shape [OF m(2)] show ?thesis using Cons m by auto
qed

lemma FindStringIndex_Some:
  "FindStringIndex p s = Some (a, b) \<Longrightarrow> match_here p (drop a s) = Some (b - a)"
  by (induction s arbitrary: a b) (auto split: option.splits)

lemma FindStringIndex_shape:
  assumes "FindStringIndex (C, L) s = Some (a, b)"
  shows "\<exists>fl l. slice s a b = CHR ''%'' # fl @ [l] \<and> (\<forall>c\<in>set fl. C c) \<and> L l"
  using match_here_shape [OF FindStringIndex_Some [OF assms]] by (simp add: slice_def)

lemma match_star_letter_flags:
  "\<forall>c\<in>set fl. \<not> L c \<Longrightarrow>
     match_star_letter C L (fl @ [l]) =
       (if (\<forall>c\<in>set fl. C c) \<and> L l then Some (Suc (length fl)) else None)"
  by (induction fl) auto

lemma FindStringIndex_directive:
  assumes "\<forall>c\<in>set fl. c \<noteq> CHR ''%'' \<and> \<not> L c" and "l \<noteq> CHR ''%''"
  shows "is_match (C, L) (CHR ''%'' # fl @ [l]) \<longleftrightarrow> (\<forall>c\<in>set fl. C c) \<and> L l"
proof -
  have "CHR ''%'' \<notin> set (fl @ [l])" using assms by auto
  then have "FindStringIndex (C, L) (fl @ [l]) = None" by (rule FindStringIndex_no_percent)
  moreover have "match_star_letter C L (fl @ [l]) =
       (if (\<forall>c\<in>set fl. C c) \<and> L l then Some (Suc (length fl)) else None)"
    using assms by (intro match_star_letter_flags) auto
  ultimately show ?thesis by (simp add: is_match_def)
qed

section \<open>The loop as a fold over its directives\<close>

lemma UReplaceN_body_eq:
  assumes "1 \<le> offset" and "offset \<le> length out"
  shows "UReplaceN_body Unsigned fm offset out =
           Inr (if is_rewritten fm then out[offset - 1 := CHR ''d''] else out, kind_of Unsigned fm)"
proof -
  have "take (offset - 1) out @ ''d'' @ drop offset out = out[offset - 1 := CHR ''d'']"
    using assms upd_conv_take_nth_drop [of "offset - 1" out "CHR ''d''"] by simp
  then show ?thesis
    using assms by (simp add: UReplaceN_body_def kind_of_def is_rewritten_def is_match_def)
qed

lemma rewrite_all_length: "length (rewrite_all i ds out) = length out"
  by (induction ds arbitrary: out) auto

lemma UReplaceN_loop_eq:
  "offset \<le> length i \<Longrightarrow> length out = length i \<Longrightarrow>
   UReplaceN_loop Unsigned i offset out u =
     Inr (rewrite_all i (directives i offset) out,
          u @ map (\<lambda>(a, b). kind_of Unsigned (slice i a b)) (directives i offset))"
proof (induction Unsigned i offset out u rule: UReplaceN_loop.induct)
  case (1 Unsigned i offset out u)
  show ?case
  proof (cases "FindStringIndex patNextFormatSpecifier (drop offset i)")
    case None
    with 1 show ?thesis
      by (simp add: UReplaceN_loop.simps [of Unsigned i offset] directives.simps [of i offset])
  next
    case (Some loc)
    let ?a = "fst loc" and ?b = "snd loc"
    from FindStringIndex_bounds [of patNextFormatSpecifier "drop offset i" ?a ?b] Some
    have b: "?a + 2 \<le> ?b" "offset + ?b \<le> length i"
      using 1(2) by auto
    let ?fm = "take (?b - ?a) (drop ?a (drop offset i))"
    let ?out = "if is_rewritten ?fm then out[offset + ?b - 1 := CHR ''d''] else out"
    let ?k = "kind_of Unsigned ?fm"
    have body: "UReplaceN_body Unsigned ?fm (offset + ?b) out = Inr (?out, ?k)"
      using b 1(3) by (intro UReplaceN_body_eq) auto
    have fm: "?fm = slice i (offset + ?a) (offset + ?b)"
      by (simp add: slice_def add.commute)
    have "UReplaceN_loop Unsigned i (offset + ?b) ?out (u @ [?k]) =
            Inr (rewrite_all i (directives i (offset + ?b)) ?out,
                 (u @ [?k]) @
                 map (\<lambda>(a, b). kind_of Unsigned (slice i a b)) (directives i (offset + ?b)))"
    proof (rule "1.IH" [OF _ Some body refl])
      show "\<not> length i < offset" using 1(2) by simp
      show "offset + ?b \<le> length i" by (rule b)
      show "length ?out = length i" using 1(3) by simp
    qed
    then show ?thesis
      using 1(2) Some body fm
      by (simp add: UReplaceN_loop.simps [of Unsigned i offset] directives.simps [of i offset])
  qed
qed

lemma UReplaceN_eq:
  "UReplaceN Unsigned i =
     Inr (rewrite_all (ReplaceAll i) (directives (ReplaceAll i) 0) i,
          map (\<lambda>(a, b). kind_of Unsigned (slice (ReplaceAll i) a b)) (directives (ReplaceAll i) 0))"
  by (simp add: UReplaceN_def UReplaceN_loop_eq ReplaceAll_length)

section \<open>The shape of the directives\<close>


lemma slice_length: "b \<le> length s \<Longrightarrow> length (slice s a b) = b - a"
  by (simp add: slice_def)

lemma slice_nth: "b \<le> length s \<Longrightarrow> k < b - a \<Longrightarrow> slice s a b ! k = s ! (a + k)"
  by (simp add: slice_def)

lemma slice_drop: "slice (drop n s) a b = slice s (n + a) (n + b)"
  by (simp add: slice_def add.commute)

lemma flag_not_letter:
  assumes "fst patNextFormatSpecifier c"
  shows "c \<noteq> CHR ''%''" and "c \<noteq> CHR ''_''" and "c \<noteq> CHR ''s''"
    and "\<not> snd patNextFormatSpecifier c"
    and "\<not> snd patNextFormatPointerSpecifier c"
    and "\<not> snd patNextFormatBoolSpecifier c"
    and "\<not> snd patNextFormatFSpecifier c"
    and "\<not> snd patNextFormatUSpecifier c"
    and "\<not> snd patNextFormatISpecifier c"
    and "\<not> snd patNextFormatXSpecifier c"
  using assms
  by (auto simp: patNextFormatSpecifier_def patNextFormatPointerSpecifier_def
      patNextFormatBoolSpecifier_def patNextFormatFSpecifier_def patNextFormatUSpecifier_def
      patNextFormatISpecifier_def patNextFormatXSpecifier_def digit_def)

lemma letter_not_percent:
  assumes "snd patNextFormatSpecifier c"
  shows "c \<noteq> CHR ''%''" and "c \<noteq> CHR ''_''" and "c \<noteq> CHR ''s''"
  using assms by (auto simp: patNextFormatSpecifier_def)

lemma directives_shape:
  "(a, b) \<in> set (directives i offset) \<Longrightarrow>
     offset \<le> a \<and> a + 2 \<le> b \<and> b \<le> length i \<and> (\<exists>fl l. directive_shape (slice i a b) fl l)"
proof (induction i offset rule: directives.induct)
  case (1 i offset)
  show ?case
  proof (cases "FindStringIndex patNextFormatSpecifier (drop offset i)")
    case None
    with 1(2) show ?thesis by (simp add: directives.simps [of i offset] split: if_splits)
  next
    case (Some loc)
    have le: "\<not> length i < offset"
      using 1(2) by (simp add: directives.simps [of i offset] split: if_splits)
    from FindStringIndex_bounds [of patNextFormatSpecifier "drop offset i" "fst loc" "snd loc"] Some
    have b: "fst loc + 2 \<le> snd loc" "offset + snd loc \<le> length i"
      using le by auto
    from 1(2) Some le
    consider "(a, b) = (offset + fst loc, offset + snd loc)"
      | "(a, b) \<in> set (directives i (offset + snd loc))"
      by (auto simp: directives.simps [of i offset])
    then show ?thesis
    proof cases
      case 1
      have "FindStringIndex (fst patNextFormatSpecifier, snd patNextFormatSpecifier)
              (drop offset i) = Some (fst loc, snd loc)"
        using Some by simp
      from FindStringIndex_shape [OF this]
      obtain fl l where "slice (drop offset i) (fst loc) (snd loc) = CHR ''%'' # fl @ [l]"
        "\<forall>c\<in>set fl. fst patNextFormatSpecifier c" "snd patNextFormatSpecifier l"
        by blast
      then have "directive_shape (slice i a b) fl l"
        using 1 by (simp add: directive_shape_def slice_drop list_all_iff)
      then show ?thesis using 1 b by auto
    next
      case 2
      from "1.IH" [OF le Some 2] show ?thesis by auto
    qed
  qed
qed

lemma directive_is_match:
  assumes "directive_shape fm fl l" and "\<And>c. fst patNextFormatSpecifier c \<Longrightarrow> \<not> L c"
  shows "is_match (C, L) fm \<longleftrightarrow> list_all C fl \<and> L l"
proof -
  from assms have "\<forall>c\<in>set fl. c \<noteq> CHR ''%'' \<and> \<not> L c" "l \<noteq> CHR ''%''"
    by (auto simp: directive_shape_def list_all_iff flag_not_letter(1) letter_not_percent(1))
  from FindStringIndex_directive [OF this] show ?thesis
    using assms(1) by (simp add: directive_shape_def list_all_iff)
qed

lemma directive_pointer:
  "directive_shape fm fl l \<Longrightarrow>
     is_match patNextFormatPointerSpecifier fm \<longleftrightarrow> fl = [] \<and> l = CHR ''p''"
  using directive_is_match [of fm fl l "snd patNextFormatPointerSpecifier"
      "fst patNextFormatPointerSpecifier"] flag_not_letter(5)
  by (cases fl) (auto simp: patNextFormatPointerSpecifier_def)

lemma directive_bool:
  "directive_shape fm fl l \<Longrightarrow>
     is_match patNextFormatBoolSpecifier fm \<longleftrightarrow> fl = [] \<and> l = CHR ''t''"
  using directive_is_match [of fm fl l "snd patNextFormatBoolSpecifier"
      "fst patNextFormatBoolSpecifier"] flag_not_letter(6)
  by (cases fl) (auto simp: patNextFormatBoolSpecifier_def)

lemma directive_float:
  "directive_shape fm fl l \<Longrightarrow>
     is_match patNextFormatFSpecifier fm \<longleftrightarrow>
       list_all (fst patNextFormatFSpecifier) fl \<and> l \<in> set ''eEfFgG''"
  using directive_is_match [of fm fl l "snd patNextFormatFSpecifier"
      "fst patNextFormatFSpecifier"] flag_not_letter(7)
  by (auto simp: patNextFormatFSpecifier_def)

lemma directive_unsigned:
  "directive_shape fm fl l \<Longrightarrow>
     is_match patNextFormatUSpecifier fm \<longleftrightarrow> list_all digit fl \<and> l = CHR ''u''"
  using directive_is_match [of fm fl l "snd patNextFormatUSpecifier"
      "fst patNextFormatUSpecifier"] flag_not_letter(8)
  by (auto simp: patNextFormatUSpecifier_def)

lemma directive_signed:
  "directive_shape fm fl l \<Longrightarrow>
     is_match patNextFormatISpecifier fm \<longleftrightarrow> list_all digit fl \<and> l = CHR ''i''"
  using directive_is_match [of fm fl l "snd patNextFormatISpecifier"
      "fst patNextFormatISpecifier"] flag_not_letter(9)
  by (auto simp: patNextFormatISpecifier_def)

lemma directive_hex:
  "directive_shape fm fl l \<Longrightarrow>
     is_match patNextFormatXSpecifier fm \<longleftrightarrow> list_all digit fl \<and> l \<in> set ''loOxXbpt''"
  using directive_is_match [of fm fl l "snd patNextFormatXSpecifier"
      "fst patNextFormatXSpecifier"] flag_not_letter(10)
  by (auto simp: patNextFormatXSpecifier_def)


lemma directive_chars:
  assumes "directive_shape (slice s a b) fl l" and "a + 2 \<le> b" and "b \<le> length s"
  shows "s ! a = CHR ''%''" and "s ! (b - 1) = l"
    and "\<And>j. a < j \<Longrightarrow> j < b - 1 \<Longrightarrow> fst patNextFormatSpecifier (s ! j)"
proof -
  from assms(1) have fm: "slice s a b = CHR ''%'' # fl @ [l]"
    and fl: "list_all (fst patNextFormatSpecifier) fl"
    by (simp_all add: directive_shape_def)
  from fm slice_length [OF assms(3), of a] have len: "b - a = length fl + 2" by simp
  have nth: "s ! (a + k) = (CHR ''%'' # fl @ [l]) ! k" if "k < b - a" for k
    using slice_nth [OF assms(3) that] fm by simp
  show "s ! a = CHR ''%''" using nth [of 0] assms(2) by simp
  have "s ! (a + (length fl + 1)) = l" using nth [of "length fl + 1"] len by (simp add: nth_append)
  moreover have "a + (length fl + 1) = b - 1" using len assms(2) by arith
  ultimately show "s ! (b - 1) = l" by simp
  show "fst patNextFormatSpecifier (s ! j)" if "a < j" "j < b - 1" for j
  proof -
    define k where "k = j - a - 1"
    have k: "j = a + Suc k" "k < length fl"
      using that len by (simp_all add: k_def; arith)+
    then have "s ! j = fl ! k" using nth [of "Suc k"] len by (simp add: nth_append)
    with fl k show ?thesis by (simp add: list_all_length)
  qed
qed

lemma directive_not_masked:
  assumes "(a, b) \<in> set (directives (ReplaceAll i) offset)" and "a \<le> j" and "j < b"
  shows "ReplaceAll i ! j = i ! j" and "ReplaceAll i ! j \<noteq> CHR ''_''"
proof -
  let ?m = "ReplaceAll i"
  from directives_shape [OF assms(1)] obtain fl l
    where b: "a + 2 \<le> b" "b \<le> length ?m" and sh: "directive_shape (slice ?m a b) fl l"
    by blast
  note ch = directive_chars [OF sh b]
  have "snd patNextFormatSpecifier l" using sh by (simp add: directive_shape_def)
  then have l: "l \<noteq> CHR ''_''" by (rule letter_not_percent)
  consider "j = a" | "a < j \<and> j < b - 1" | "j = b - 1" using assms(2,3) by arith
  then show m: "?m ! j \<noteq> CHR ''_''"
  proof cases
    case 1 then show ?thesis using ch(1) by simp
  next
    case 2 then show ?thesis using flag_not_letter(2) [OF ch(3) [of j]] by simp
  next
    case 3 then show ?thesis using ch(2) l by simp
  qed
  have "j < length i" using assms(3) b(2) by (simp add: ReplaceAll_length)
  from ReplaceAll_nth [OF this] m show "?m ! j = i ! j" by auto
qed

lemma directive_slice_original:
  assumes "(a, b) \<in> set (directives (ReplaceAll i) offset)"
  shows "slice (ReplaceAll i) a b = slice i a b"
proof (rule nth_equalityI)
  from directives_shape [OF assms] have b: "a + 2 \<le> b" "b \<le> length (ReplaceAll i)" by auto
  then have bi: "b \<le> length i" by (simp add: ReplaceAll_length)
  show "length (slice (ReplaceAll i) a b) = length (slice i a b)"
    using b bi by (simp add: slice_length)
  fix k assume "k < length (slice (ReplaceAll i) a b)"
  then have k: "k < b - a" using b by (simp add: slice_length)
  then have "ReplaceAll i ! (a + k) = i ! (a + k)"
    using directive_not_masked(1) [OF assms, of "a + k"] by simp
  then show "slice (ReplaceAll i) a b ! k = slice i a b ! k"
    using k b bi by (simp add: slice_nth)
qed

lemma rewrite_all_nth:
  "j < length out \<Longrightarrow> \<forall>(a, b)\<in>set ds. 1 \<le> b \<Longrightarrow>
   rewrite_all i ds out ! j =
     (if \<exists>(a, b)\<in>set ds. is_rewritten (slice i a b) \<and> j = b - 1 then CHR ''d''
      else out ! j)"
proof (induction ds arbitrary: out)
  case Nil
  then show ?case by simp
next
  case (Cons d ds)
  obtain a b where d: "d = (a, b)" by (cases d)
  let ?out = "if is_rewritten (slice i a b) then out[b - 1 := CHR ''d''] else out"
  have "j < length ?out" using Cons.prems by simp
  moreover have "\<forall>(a, b)\<in>set ds. 1 \<le> b" using Cons.prems by simp
  ultimately have "rewrite_all i ds ?out ! j =
     (if \<exists>(a, b)\<in>set ds. is_rewritten (slice i a b) \<and> j = b - 1 then CHR ''d''
      else ?out ! j)"
    by (rule Cons.IH)
  then show ?case
    using d Cons.prems(1) by (auto simp: nth_list_update)
qed


lemma matches_shape:
  assumes "(a, b) \<in> set (UReplaceN_matches i)"
  shows "a + 2 \<le> b" and "b \<le> length i" and "\<exists>fl l. directive_shape (slice i a b) fl l"
proof -
  from assms have d: "(a, b) \<in> set (directives (ReplaceAll i) 0)"
    by (simp add: UReplaceN_matches_def)
  from directives_shape [OF d] show "a + 2 \<le> b" "b \<le> length i"
    by (simp_all add: ReplaceAll_length)
  from directives_shape [OF d] directive_slice_original [OF d]
  show "\<exists>fl l. directive_shape (slice i a b) fl l" by simp
qed

lemma matches_char_cases:
  assumes "(a, b) \<in> set (UReplaceN_matches i)" and "a \<le> j" and "j < b"
  shows "(j = a \<and> i ! j = CHR ''%'') \<or>
         (a < j \<and> j < b - 1 \<and> fst patNextFormatSpecifier (i ! j)) \<or>
         (j = b - 1 \<and> snd patNextFormatSpecifier (i ! j))"
proof -
  from matches_shape [OF assms(1)] obtain fl l
    where b: "a + 2 \<le> b" "b \<le> length i" and sh: "directive_shape (slice i a b) fl l"
    by blast
  note ch = directive_chars [OF sh b]
  have l: "snd patNextFormatSpecifier l" using sh by (simp add: directive_shape_def)
  consider "j = a" | "a < j \<and> j < b - 1" | "j = b - 1" using assms(2,3) by arith
  then show ?thesis
  proof cases
    case 1 then show ?thesis using ch(1) by simp
  next
    case 2 then show ?thesis using ch(3) [of j] by simp
  next
    case 3 then show ?thesis using ch(2) l by simp
  qed
qed

lemma rewritten_letter:
  assumes "directive_shape fm fl l" and "is_rewritten fm"
  shows "l = CHR ''u'' \<or> l = CHR ''i''"
  using assms directive_unsigned [OF assms(1)] directive_signed [OF assms(1)]
  by (auto simp: is_rewritten_def)

lemma UReplaceN_result:
  "UReplaceN Unsigned i =
     Inr (rewrite_all (ReplaceAll i) (UReplaceN_matches i) i,
          map (\<lambda>(a, b). kind_of Unsigned (slice i a b)) (UReplaceN_matches i))"
proof -
  have "map (\<lambda>(a, b). kind_of Unsigned (slice (ReplaceAll i) a b)) (UReplaceN_matches i) =
        map (\<lambda>(a, b). kind_of Unsigned (slice i a b)) (UReplaceN_matches i)"
    by (rule map_cong) (auto simp: UReplaceN_matches_def directive_slice_original)
  then show ?thesis by (simp add: UReplaceN_eq UReplaceN_matches_def)
qed

lemma UReplaceN_out_nth:
  assumes "j < length i"
  shows "rewrite_all (ReplaceAll i) (UReplaceN_matches i) i ! j =
           (if \<exists>(a, b)\<in>set (UReplaceN_matches i). is_rewritten (slice i a b) \<and> j = b - 1
            then CHR ''d'' else i ! j)"
proof -
  have "\<forall>(a, b)\<in>set (UReplaceN_matches i). 1 \<le> b"
    using matches_shape(1) by fastforce
  from rewrite_all_nth [OF assms this, of "ReplaceAll i"]
  have "rewrite_all (ReplaceAll i) (UReplaceN_matches i) i ! j =
          (if \<exists>(a, b)\<in>set (UReplaceN_matches i).
                is_rewritten (slice (ReplaceAll i) a b) \<and> j = b - 1
           then CHR ''d'' else i ! j)" .
  moreover have "(\<exists>(a, b)\<in>set (UReplaceN_matches i).
                    is_rewritten (slice (ReplaceAll i) a b) \<and> j = b - 1) \<longleftrightarrow>
                 (\<exists>(a, b)\<in>set (UReplaceN_matches i). is_rewritten (slice i a b) \<and> j = b - 1)"
    by (rule bex_cong) (auto simp: UReplaceN_matches_def directive_slice_original)
  ultimately show ?thesis by simp
qed

lemma UReplaceN_out_changed:
  assumes "j < length i"
    and "rewrite_all (ReplaceAll i) (UReplaceN_matches i) i ! j \<noteq> i ! j"
  shows "(i ! j = CHR ''u'' \<or> i ! j = CHR ''i'') \<and>
         rewrite_all (ReplaceAll i) (UReplaceN_matches i) i ! j = CHR ''d'' \<and>
         (\<exists>(a, b)\<in>set (UReplaceN_matches i). is_rewritten (slice i a b) \<and> j = b - 1)"
proof -
  from assms UReplaceN_out_nth [OF assms(1)]
  obtain a b where ab: "(a, b) \<in> set (UReplaceN_matches i)" "is_rewritten (slice i a b)"
    "j = b - 1" and d: "rewrite_all (ReplaceAll i) (UReplaceN_matches i) i ! j = CHR ''d''"
    by (auto split: if_splits)
  from matches_shape [OF ab(1)] obtain fl l
    where b: "a + 2 \<le> b" "b \<le> length i" and sh: "directive_shape (slice i a b) fl l"
    by blast
  from directive_chars(2) [OF sh b] rewritten_letter [OF sh ab(2)] ab(3)
  have "i ! j = CHR ''u'' \<or> i ! j = CHR ''i''" by simp
  with d ab show ?thesis by blast
qed

lemma match_here_percent: "match_here p s = Some n \<Longrightarrow> s \<noteq> [] \<and> s ! 0 = CHR ''%''"
  by (cases p; cases s) (auto split: if_splits)

lemma FindStringIndex_leftmost:
  "j < length s \<Longrightarrow> match_here p (drop j s) = Some n \<Longrightarrow>
     \<exists>a b. FindStringIndex p s = Some (a, b) \<and> a \<le> j \<and> (a = j \<longrightarrow> b = j + n)"
proof (induction s arbitrary: j)
  case Nil
  then show ?case by simp
next
  case (Cons c cs)
  show ?case
  proof (cases "match_here p (c # cs)")
    case (Some m)
    with Cons.prems show ?thesis by (cases j) auto
  next
    case None
    with Cons.prems obtain j' where j': "j = Suc j'" by (cases j) auto
    with Cons.prems have "j' < length cs" "match_here p (drop j' cs) = Some n" by simp_all
    from Cons.IH [OF this] obtain a b
      where "FindStringIndex p cs = Some (a, b)" "a \<le> j'" "a = j' \<longrightarrow> b = j' + n"
      by blast
    with None j' show ?thesis by simp
  qed
qed

lemma directives_sound:
  "(a, b) \<in> set (directives i offset) \<Longrightarrow> match_here patNextFormatSpecifier (drop a i) = Some (b - a)"
proof (induction i offset rule: directives.induct)
  case (1 i offset)
  show ?case
  proof (cases "FindStringIndex patNextFormatSpecifier (drop offset i)")
    case None
    with 1(2) show ?thesis by (simp add: directives.simps [of i offset] split: if_splits)
  next
    case (Some loc)
    have le: "\<not> length i < offset"
      using 1(2) by (simp add: directives.simps [of i offset] split: if_splits)
    from 1(2) Some le
    consider "(a, b) = (offset + fst loc, offset + snd loc)"
      | "(a, b) \<in> set (directives i (offset + snd loc))"
      by (auto simp: directives.simps [of i offset])
    then show ?thesis
    proof cases
      case 1
      from FindStringIndex_Some [of patNextFormatSpecifier "drop offset i" "fst loc" "snd loc"] Some
      have "match_here patNextFormatSpecifier (drop (fst loc) (drop offset i)) =
              Some (snd loc - fst loc)" by simp
      with 1 show ?thesis by (simp add: add.commute)
    next
      case 2
      from "1.IH" [OF le Some 2] show ?thesis .
    qed
  qed
qed

lemma directives_complete:
  "offset \<le> a \<Longrightarrow> a < length i \<Longrightarrow>
   match_here patNextFormatSpecifier (drop a i) = Some n \<Longrightarrow>
     (a, a + n) \<in> set (directives i offset)"
proof (induction i offset rule: directives.induct)
  case (1 i offset)
  have le: "\<not> length i < offset" using 1(2,3) by simp
  have "a - offset < length (drop offset i)" using 1(2,3) by simp
  moreover have "match_here patNextFormatSpecifier (drop (a - offset) (drop offset i)) = Some n"
    using 1(2,4) by simp
  ultimately obtain a' b'
    where f: "FindStringIndex patNextFormatSpecifier (drop offset i) = Some (a', b')"
      and a': "a' \<le> a - offset" "a' = a - offset \<longrightarrow> b' = a - offset + n"
    using FindStringIndex_leftmost by blast
  have ds: "directives i offset = (offset + a', offset + b') # directives i (offset + b')"
    using le f by (simp add: directives.simps [of i offset])
  show ?case
  proof (cases "a' = a - offset")
    case True
    with a' 1(2) ds show ?thesis by simp
  next
    case False
    with a' 1(2) have lt: "offset + a' < a" by simp
    have mem: "(offset + a', offset + b') \<in> set (directives i offset)" using ds by simp
    from directives_shape [OF mem] obtain fl l
      where b: "offset + a' + 2 \<le> offset + b'" "offset + b' \<le> length i"
        and sh: "directive_shape (slice i (offset + a') (offset + b')) fl l"
      by blast
    have pa: "i ! a = CHR ''%''"
      using match_here_percent [OF 1(4)] 1(3) by simp
    have "offset + b' \<le> a"
    proof (rule ccontr)
      assume "\<not> offset + b' \<le> a"
      then have ab: "a < offset + b'" by simp
      consider "a < offset + b' - 1" | "a = offset + b' - 1" using ab by arith
      then show False
      proof cases
        case 1
        from directive_chars(3) [OF sh b lt 1] pa flag_not_letter(1) show False by auto
      next
        case 2
        from directive_chars(2) [OF sh b] sh 2 pa letter_not_percent(1) show False
          by (auto simp: directive_shape_def)
      qed
    qed
    then have "(a, a + n) \<in> set (directives i (offset + snd (a', b')))"
      using 1(3,4) by (intro "1.IH" [OF le f]) simp_all
    then show ?thesis using ds by simp
  qed
qed


text \<open>
  The matches the loop visits are exactly the places of the masked string where the
  specifier pattern matches.
\<close>

lemma UReplaceN_matches_iff:
  "(a, b) \<in> set (UReplaceN_matches i) \<longleftrightarrow>
     a < length i \<and> a < b \<and>
     match_here patNextFormatSpecifier (drop a (ReplaceAll i)) = Some (b - a)"
proof
  assume mem: "(a, b) \<in> set (UReplaceN_matches i)"
  then have d: "(a, b) \<in> set (directives (ReplaceAll i) 0)"
    by (simp add: UReplaceN_matches_def)
  from matches_shape(1,2) [OF mem] directives_sound [OF d]
  show "a < length i \<and> a < b \<and>
     match_here patNextFormatSpecifier (drop a (ReplaceAll i)) = Some (b - a)"
    by simp
next
  assume r: "a < length i \<and> a < b \<and>
     match_here patNextFormatSpecifier (drop a (ReplaceAll i)) = Some (b - a)"
  then have "(a, a + (b - a)) \<in> set (directives (ReplaceAll i) 0)"
    by (intro directives_complete) (simp_all add: ReplaceAll_length)
  with r show "(a, b) \<in> set (UReplaceN_matches i)"
    by (simp add: UReplaceN_matches_def)
qed

lemma matches_no_percent: "CHR ''%'' \<notin> set (ReplaceAll i) \<Longrightarrow> UReplaceN_matches i = []"
  by (simp add: UReplaceN_matches_def directives.simps [of _ 0] FindStringIndex_no_percent)

lemma UReplaceN_kind_nth:
  assumes "k < length (UReplaceN_matches i)" and "UReplaceN_matches i ! k = (a, b)"
  shows "map (\<lambda>(a, b). kind_of Unsigned (slice i a b)) (UReplaceN_matches i) ! k =
           kind_of Unsigned (slice i a b)"
  using assms by simp

lemma only_literal_and_escapes_masked:
  "only_literal_and_escapes s \<Longrightarrow> CHR ''%'' \<notin> set (ReplaceAll s)"
  by (induction s rule: only_literal_and_escapes.induct) (auto split: if_splits)

lemma kind_of_switch:
  "kind_of True fm = kind_of False fm \<or> (kind_of True fm = 0 \<and> kind_of False fm = 1)"
  by (simp add: kind_of_def)

lemma match_here_percent_s: "match_here patNextFormatSpecifier (''%s'' @ rest) = None"
  by (simp add: patNextFormatSpecifier_def digit_def)

lemma directive_shape_parts:
  assumes "directive_shape fm fl l"
  shows "hd fm = CHR ''%''" and "directive_flags fm = fl" and "directive_letter fm = l"
  using assms by (simp_all add: directive_shape_def directive_flags_def directive_letter_def)

lemma digit_literal: "digit = (\<lambda>c. c \<in> set ''0123456789'')"
  by (simp add: fun_eq_iff digit_def)

lemma float_flag_literal:
  "fst patNextFormatFSpecifier = (\<lambda>c. c \<in> set ''(+-0123456789.#'')"
  by (auto simp: fun_eq_iff patNextFormatFSpecifier_def digit_def)

lemma kind_of_directive:
  assumes "directive_shape fm fl l"
  shows "kind_of Unsigned fm =
     (if fl = [] \<and> l = CHR ''p'' then 4
      else if fl = [] \<and> l = CHR ''t'' then 3
      else if list_all (\<lambda>c. c \<in> set ''(+-0123456789.#'') fl \<and> l \<in> set ''eEfFgG'' then 2
      else if list_all (\<lambda>c. c \<in> set ''0123456789'') fl \<and> l = CHR ''u'' then 0
      else if list_all (\<lambda>c. c \<in> set ''0123456789'') fl \<and> l = CHR ''i'' then 1
      else if list_all (\<lambda>c. c \<in> set ''0123456789'') fl \<and> l \<in> set ''loOxXbpt'' then
        (if Unsigned then 0 else 1)
      else 1)"
  unfolding kind_of_def directive_pointer [OF assms] directive_bool [OF assms]
    directive_float [OF assms] directive_unsigned [OF assms] directive_signed [OF assms]
    directive_hex [OF assms] digit_literal float_flag_literal
  by (rule refl)

lemma is_rewritten_directive:
  assumes "directive_shape fm fl l"
  shows "is_rewritten fm \<longleftrightarrow>
     list_all (\<lambda>c. c \<in> set ''0123456789'') fl \<and> (l = CHR ''u'' \<or> l = CHR ''i'')"
  unfolding is_rewritten_def directive_pointer [OF assms] directive_bool [OF assms]
    directive_float [OF assms] directive_unsigned [OF assms] directive_signed [OF assms]
    digit_literal
  by auto

lemma is_rewritten_visited:
  assumes "(a, b) \<in> set (UReplaceN_matches i)"
  shows "is_rewritten (slice i a b) \<longleftrightarrow>
     list_all (\<lambda>c. c \<in> set ''0123456789'') (directive_flags (slice i a b)) \<and>
     (directive_letter (slice i a b) = CHR ''u'' \<or> directive_letter (slice i a b) = CHR ''i'')"
proof -
  from matches_shape(3) [OF assms] obtain fl l where sh: "directive_shape (slice i a b) fl l"
    by blast
  from is_rewritten_directive [OF sh] directive_shape_parts [OF sh] show ?thesis by simp
qed

lemma UReplaceN_out_exact:
  assumes "j < length i"
  shows "rewrite_all (ReplaceAll i) (UReplaceN_matches i) i ! j =
     (if \<exists>(a, b)\<in>set (UReplaceN_matches i). j = b - 1 \<and>
           list_all (\<lambda>c. c \<in> set ''0123456789'') (directive_flags (slice i a b)) \<and>
           (directive_letter (slice i a b) = CHR ''u'' \<or>
            directive_letter (slice i a b) = CHR ''i'')
      then CHR ''d'' else i ! j)"
proof -
  have "(\<exists>(a, b)\<in>set (UReplaceN_matches i). is_rewritten (slice i a b) \<and> j = b - 1) \<longleftrightarrow>
        (\<exists>(a, b)\<in>set (UReplaceN_matches i). j = b - 1 \<and>
           list_all (\<lambda>c. c \<in> set ''0123456789'') (directive_flags (slice i a b)) \<and>
           (directive_letter (slice i a b) = CHR ''u'' \<or>
            directive_letter (slice i a b) = CHR ''i''))"
    by (rule bex_cong) (auto simp: is_rewritten_visited)
  with UReplaceN_out_nth [OF assms] show ?thesis by simp
qed

lemma visited_letter:
  assumes "(a, b) \<in> set (UReplaceN_matches i)"
  shows "directive_letter (slice i a b) = i ! (b - 1)"
proof -
  from matches_shape [OF assms] obtain fl l
    where b: "a + 2 \<le> b" "b \<le> length i" and sh: "directive_shape (slice i a b) fl l"
    by blast
  from directive_chars(2) [OF sh b] directive_shape_parts(3) [OF sh] show ?thesis by simp
qed

section \<open>Facts about the endian reader\<close>

lemma le_value_bound: "le_value bs < 2 ^ (8 * length bs)"
proof (induction bs)
  case Nil
  then show ?case by simp
next
  case (Cons x xs)
  have "unat x < 256" using unsigned_less [of x] by simp
  moreover have "256 * le_value xs + 256 \<le> 256 * 2 ^ (8 * length xs)"
    using Cons.IH by simp
  ultimately show ?case by (simp add: power_add)
qed

lemma or_push_bit_8:
  fixes x :: byte
  shows "unat x OR push_bit 8 (y::nat) = unat x + 256 * y"
proof -
  have "unat x + push_bit 8 y = unat x OR push_bit 8 y"
  proof (rule disjunctive_add)
    fix n
    show "\<not> bit (unat x) n \<or> \<not> bit (push_bit 8 y) n"
      by (auto simp: bit_push_bit_iff bit_unsigned_iff dest: bit_imp_le_length)
  qed
  then show ?thesis by (simp add: push_bit_eq_mult)
qed

lemma unat_le_word:
  "8 * length bs \<le> LENGTH('a::len) \<Longrightarrow> unat (le_word bs :: 'a word) = le_value bs"
proof (induction bs)
  case Nil
  then show ?case by simp
next
  case (Cons x xs)
  then have IH: "unat (le_word xs :: 'a word) = le_value xs" by simp
  have "le_value (x # xs) < 2 ^ (8 * length (x # xs))" by (rule le_value_bound)
  also have "\<dots> \<le> 2 ^ LENGTH('a)" using Cons.prems by (intro power_increasing) auto
  finally have bound: "unat x + 256 * le_value xs < 2 ^ LENGTH('a)" by simp
  then have b1: "unat x < 2 ^ LENGTH('a)" and b2: "256 * le_value xs < 2 ^ LENGTH('a)" by auto
  have "unat (ucast x :: 'a word) = unat x"
    using b1 by (simp add: unsigned_ucast_eq take_bit_nat_eq_self)
  moreover have "unat (push_bit 8 (le_word xs :: 'a word)) = 256 * le_value xs"
  proof -
    have "unat (push_bit 8 (le_word xs :: 'a word)) =
            take_bit LENGTH('a) (push_bit 8 (le_value xs))"
      by (simp only: unsigned_push_bit_eq IH)
    also have "\<dots> = 256 * le_value xs"
      using b2 by (simp add: push_bit_eq_mult take_bit_nat_eq_self mult.commute)
    finally show ?thesis .
  qed
  ultimately have "unat (le_word (x # xs) :: 'a word) = unat x OR (256 * le_value xs)"
    by (simp add: unsigned_or_eq)
  also have "\<dots> = unat x + 256 * le_value xs"
    using or_push_bit_8 [of x "le_value xs"] by (simp add: push_bit_eq_mult mult.commute)
  finally show ?case by simp
qed

lemma take_2: "2 \<le> length b \<Longrightarrow> take 2 b = [b ! 0, b ! 1]"
  by (rule nth_equalityI) (auto simp: nth_Cons' intro!: arg_cong [where f = "(!) b"])

lemma take_4: "4 \<le> length b \<Longrightarrow> take 4 b = [b ! 0, b ! 1, b ! 2, b ! 3]"
  by (rule nth_equalityI) (auto simp: nth_Cons' intro!: arg_cong [where f = "(!) b"])

lemma take_8:
  "8 \<le> length b \<Longrightarrow> take 8 b = [b ! 0, b ! 1, b ! 2, b ! 3, b ! 4, b ! 5, b ! 6, b ! 7]"
  by (rule nth_equalityI) (auto simp: nth_Cons' intro!: arg_cong [where f = "(!) b"])

lemma ReadU16_value:
  assumes "2 \<le> length b"
  shows "\<exists>v. ReadU16 p b = Inr v \<and>
           unat v = (if Endian p then le_value (take 2 b) else be_value (take 2 b))"
proof -
  have le: "(ucast (b ! 0) OR push_bit 8 (ucast (b ! 1)) :: 16 word) = le_word [b ! 0, b ! 1]"
    by simp
  have be: "(ucast (b ! 1) OR push_bit 8 (ucast (b ! 0)) :: 16 word) = le_word [b ! 1, b ! 0]"
    by simp
  have "unat (le_word [b ! 0, b ! 1] :: 16 word) = le_value [b ! 0, b ! 1]"
    and "unat (le_word [b ! 1, b ! 0] :: 16 word) = le_value [b ! 1, b ! 0]"
    by (rule unat_le_word; simp)+
  then show ?thesis
    using assms le be
    by (simp add: ReadU16_def LittleEndian_Uint16_def BigEndian_Uint16_def take_2 be_value_def
        del: le_word.simps le_value.simps)
qed

lemma ReadU32_value:
  assumes "4 \<le> length b"
  shows "\<exists>v. ReadU32 p b = Inr v \<and>
           unat v = (if Endian p then le_value (take 4 b) else be_value (take 4 b))"
proof -
  have le: "(ucast (b ! 0) OR push_bit 8 (ucast (b ! 1)) OR push_bit 16 (ucast (b ! 2)) OR
             push_bit 24 (ucast (b ! 3)) :: 32 word) = le_word [b ! 0, b ! 1, b ! 2, b ! 3]"
    by (simp add: ac_simps)
  have be: "(ucast (b ! 3) OR push_bit 8 (ucast (b ! 2)) OR push_bit 16 (ucast (b ! 1)) OR
             push_bit 24 (ucast (b ! 0)) :: 32 word) = le_word [b ! 3, b ! 2, b ! 1, b ! 0]"
    by (simp add: ac_simps)
  have "unat (le_word [b ! 0, b ! 1, b ! 2, b ! 3] :: 32 word) =
          le_value [b ! 0, b ! 1, b ! 2, b ! 3]"
    and "unat (le_word [b ! 3, b ! 2, b ! 1, b ! 0] :: 32 word) =
          le_value [b ! 3, b ! 2, b ! 1, b ! 0]"
    by (rule unat_le_word; simp)+
  then show ?thesis
    using assms le be
    by (simp add: ReadU32_def LittleEndian_Uint32_def BigEndian_Uint32_def take_4 be_value_def
        del: le_word.simps le_value.simps)
qed

lemma ReadU64_value:
  assumes "8 \<le> length b"
  shows "\<exists>v. ReadU64 p b = Inr v \<and>
           unat v = (if Endian p then le_value (take 8 b) else be_value (take 8 b))"
proof -
  have le: "(ucast (b ! 0) OR push_bit 8 (ucast (b ! 1)) OR push_bit 16 (ucast (b ! 2)) OR
             push_bit 24 (ucast (b ! 3)) OR push_bit 32 (ucast (b ! 4)) OR
             push_bit 40 (ucast (b ! 5)) OR push_bit 48 (ucast (b ! 6)) OR
             push_bit 56 (ucast (b ! 7)) :: 64 word) =
            le_word [b ! 0, b ! 1, b ! 2, b ! 3, b ! 4, b ! 5, b ! 6, b ! 7]"
    by (simp add: ac_simps)
  have be: "(ucast (b ! 7) OR push_bit 8 (ucast (b ! 6)) OR push_bit 16 (ucast (b ! 5)) OR
             push_bit 24 (ucast (b ! 4)) OR push_bit 32 (ucast (b ! 3)) OR
             push_bit 40 (ucast (b ! 2)) OR push_bit 48 (ucast (b ! 1)) OR
             push_bit 56 (ucast (b ! 0)) :: 64 word) =
            le_word [b ! 7, b ! 6, b ! 5, b ! 4, b ! 3, b ! 2, b ! 1, b ! 0]"
    by (simp add: ac_simps)
  have "unat (le_word [b ! 0, b ! 1, b ! 2, b ! 3, b ! 4, b ! 5, b ! 6, b ! 7] :: 64 word) =
          le_value [b ! 0, b ! 1, b ! 2, b ! 3, b ! 4, b ! 5, b ! 6, b ! 7]"
    and "unat (le_word [b ! 7, b ! 6, b ! 5, b ! 4, b ! 3, b ! 2, b ! 1, b ! 0] :: 64 word) =
          le_value [b ! 7, b ! 6, b ! 5, b ! 4, b ! 3, b ! 2, b ! 1, b ! 0]"
    by (rule unat_le_word; simp)+
  then show ?thesis
    using assms le be
    by (simp add: ReadU64_def LittleEndian_Uint64_def BigEndian_Uint64_def take_8 be_value_def
        del: le_word.simps le_value.simps)
qed

section \<open>The claims\<close>

text \<open>
  Claim C1, as amended. A directive the loop visits that matches \<^verbatim>\<open>%[0-9]*u\<close> gets
  kind 0 (unsigned) and its conversion letter \<^verbatim>\<open>u\<close> is \<^verbatim>\<open>d\<close> in the returned string.
  The rest of the string is unchanged but for the conversion letters of the other
  directives made of a percent sign, decimal digits and \<^verbatim>\<open>u\<close> or \<^verbatim>\<open>i\<close>, which are
  \<^verbatim>\<open>d\<close> as well. The last theorem evaluates the function on \<^verbatim>\<open>"%u %i"\<close>: the \<^verbatim>\<open>i\<close> outside
  the \<^verbatim>\<open>%u\<close> directive is rewritten too.
\<close>

theorem unsigned_letter_directive_exact:
  assumes "k < length (UReplaceN_matches i)"
    and "UReplaceN_matches i ! k = (a, b)"
    and "is_match patNextFormatUSpecifier (slice i a b)"
  shows "\<exists>out u. UReplaceN Unsigned i = Inr (out, u) \<and>
           length u = length (UReplaceN_matches i) \<and> u ! k = 0 \<and>
           length out = length i \<and> i ! (b - 1) = CHR ''u'' \<and> out ! (b - 1) = CHR ''d'' \<and>
           list_all (\<lambda>c. c \<in> set ''0123456789'') (directive_flags (slice i a b)) \<and>
           (\<forall>j<length i. out ! j =
              (if \<exists>(a', b')\<in>set (UReplaceN_matches i). j = b' - 1 \<and>
                    list_all (\<lambda>c. c \<in> set ''0123456789'') (directive_flags (slice i a' b')) \<and>
                    (directive_letter (slice i a' b') = CHR ''u'' \<or>
                     directive_letter (slice i a' b') = CHR ''i'')
               then CHR ''d'' else i ! j))"
proof -
  let ?out = "rewrite_all (ReplaceAll i) (UReplaceN_matches i) i"
  let ?u = "map (\<lambda>(a, b). kind_of Unsigned (slice i a b)) (UReplaceN_matches i)"
  from assms(1,2) have mem: "(a, b) \<in> set (UReplaceN_matches i)"
    by (metis nth_mem)
  from matches_shape [OF mem] obtain fl l
    where b: "a + 2 \<le> b" "b \<le> length i" and sh: "directive_shape (slice i a b) fl l"
    by blast
  from assms(3) directive_unsigned [OF sh]
  have l: "l = CHR ''u''" and fl: "list_all (\<lambda>c. c \<in> set ''0123456789'') fl"
    by (simp_all add: digit_literal)
  have "kind_of Unsigned (slice i a b) = 0"
    using l fl by (simp add: kind_of_directive [OF sh])
  then have k: "?u ! k = 0" using UReplaceN_kind_nth [OF assms(1,2)] by simp
  have letter: "i ! (b - 1) = CHR ''u''" using directive_chars(2) [OF sh b] l by simp
  have flags: "list_all (\<lambda>c. c \<in> set ''0123456789'') (directive_flags (slice i a b))"
    using fl directive_shape_parts(2) [OF sh] by simp
  have "b - 1 < length i" using b by arith
  from UReplaceN_out_exact [OF this] mem flags l directive_shape_parts(3) [OF sh]
  have d: "?out ! (b - 1) = CHR ''d''" by auto
  show ?thesis
    using k letter d flags UReplaceN_out_exact [of _ i]
    by (simp add: UReplaceN_result rewrite_all_length)
qed

theorem unsigned_letter_directive_exact_witness:
  "0 < length (UReplaceN_matches ''n=%3u'') \<and> UReplaceN_matches ''n=%3u'' ! 0 = (2, 5) \<and>
   is_match patNextFormatUSpecifier (slice ''n=%3u'' 2 5) \<and>
   (\<exists>out u. UReplaceN False ''n=%3u'' = Inr (out, u) \<and> u ! 0 = 0 \<and> out ! 4 = CHR ''d'' \<and>
      out ! 3 = CHR ''3'' \<and> out ! 0 = CHR ''n'')"
proof -
  have m: "UReplaceN_matches ''n=%3u'' = [(2, 5)]" by code_simp
  have h: "is_match patNextFormatUSpecifier (slice ''n=%3u'' 2 5)" by code_simp
  from m have h1: "0 < length (UReplaceN_matches ''n=%3u'')"
    and h2: "UReplaceN_matches ''n=%3u'' ! 0 = (2, 5)" by simp_all
  from unsigned_letter_directive_exact [OF h1 h2 h, of False]
  obtain out u where r: "UReplaceN False ''n=%3u'' = Inr (out, u)" "u ! 0 = 0"
      "out ! (5 - 1) = CHR ''d''"
    and n: "\<forall>j<length ''n=%3u''. out ! j =
              (if \<exists>(a', b')\<in>set (UReplaceN_matches ''n=%3u''). j = b' - 1 \<and>
                    list_all (\<lambda>c. c \<in> set ''0123456789'')
                      (directive_flags (slice ''n=%3u'' a' b')) \<and>
                    (directive_letter (slice ''n=%3u'' a' b') = CHR ''u'' \<or>
                     directive_letter (slice ''n=%3u'' a' b') = CHR ''i'')
               then CHR ''d'' else ''n=%3u'' ! j)"
    by blast
  from n [rule_format, of 3] n [rule_format, of 0]
  have "out ! 3 = CHR ''3''" "out ! 0 = CHR ''n''" by (simp_all add: m)
  with r h h1 h2 show ?thesis by auto
qed

theorem signed_letter_also_rewritten:
  "UReplaceN False ''%u %i'' = Inr (''%d %d'', [0, 1]) \<and>
   UReplaceN_matches ''%u %i'' = [(0, 2), (3, 5)] \<and>
   ''%u %i'' ! 4 = CHR ''i'' \<and> ''%d %d'' ! 4 = CHR ''d''"
  by code_simp

text \<open>
  Claim C2, as amended. A directive the loop visits that matches
  \<^verbatim>\<open>%[0-9]*(l|o|O|x|X|b|p|t)\<close>, so with nothing but decimal digits between the percent
  sign and the letter, and that is neither \<^verbatim>\<open>%p\<close> nor \<^verbatim>\<open>%t\<close>, gets kind 0 when
  \<^verbatim>\<open>decoder.Unsigned\<close> is set and kind 1 when it is not, and its text is the same in
  the returned string. The last theorem evaluates the function on \<^verbatim>\<open>%#x\<close> with the
  switch set: the conversion letter is \<^verbatim>\<open>x\<close>, no earlier test matches, and the kind
  is 1.
\<close>

theorem hex_family_directive:
  assumes "k < length (UReplaceN_matches i)"
    and "UReplaceN_matches i ! k = (a, b)"
    and "is_match patNextFormatXSpecifier (slice i a b)"
    and "\<not> is_match patNextFormatPointerSpecifier (slice i a b)"
    and "\<not> is_match patNextFormatBoolSpecifier (slice i a b)"
  shows "\<exists>out u. UReplaceN Unsigned i = Inr (out, u) \<and>
           length u = length (UReplaceN_matches i) \<and>
           u ! k = (if Unsigned then 0 else 1) \<and>
           length out = length i \<and> slice out a b = slice i a b"
proof -
  let ?out = "rewrite_all (ReplaceAll i) (UReplaceN_matches i) i"
  let ?u = "map (\<lambda>(a, b). kind_of Unsigned (slice i a b)) (UReplaceN_matches i)"
  from assms(1,2) have mem: "(a, b) \<in> set (UReplaceN_matches i)"
    by (metis nth_mem)
  from matches_shape [OF mem] obtain fl l
    where b: "a + 2 \<le> b" "b \<le> length i" and sh: "directive_shape (slice i a b) fl l"
    by blast
  from assms(3) directive_hex [OF sh] have l: "l \<in> set ''loOxXbpt''" by simp
  have nf: "\<not> is_match patNextFormatFSpecifier (slice i a b)"
    and nu: "\<not> is_match patNextFormatUSpecifier (slice i a b)"
    and ni: "\<not> is_match patNextFormatISpecifier (slice i a b)"
    using l by (auto simp: directive_float [OF sh] directive_unsigned [OF sh]
        directive_signed [OF sh])
  have "kind_of Unsigned (slice i a b) = (if Unsigned then 0 else 1)"
    using assms(3,4,5) nf nu ni by (simp add: kind_of_def)
  then have k: "?u ! k = (if Unsigned then 0 else 1)"
    using UReplaceN_kind_nth [OF assms(1,2)] by simp
  have same: "?out ! j = i ! j" if "a \<le> j" "j < b" for j
  proof (rule ccontr)
    assume neq: "?out ! j \<noteq> i ! j"
    have "j < length i" using that b by simp
    from UReplaceN_out_changed [OF this neq]
    have ui: "i ! j = CHR ''u'' \<or> i ! j = CHR ''i''" by simp
    from matches_char_cases [OF mem that]
    consider "i ! j = CHR ''%''" | "fst patNextFormatSpecifier (i ! j)" | "j = b - 1"
      by blast
    then show False
    proof cases
      case 1 with ui show False by auto
    next
      case 2
      from flag_not_letter(8,9) [OF 2] ui show False
        by (auto simp: patNextFormatUSpecifier_def patNextFormatISpecifier_def)
    next
      case 3
      with directive_chars(2) [OF sh b] l ui show False by auto
    qed
  qed
  have "slice ?out a b = slice i a b"
  proof (rule nth_equalityI)
    show "length (slice ?out a b) = length (slice i a b)"
      using b by (simp add: slice_length rewrite_all_length)
    fix n assume "n < length (slice ?out a b)"
    then have n: "n < b - a" using b by (simp add: slice_length rewrite_all_length)
    then have "?out ! (a + n) = i ! (a + n)" using same [of "a + n"] by simp
    then show "slice ?out a b ! n = slice i a b ! n"
      using n b by (simp add: slice_nth rewrite_all_length)
  qed
  then show ?thesis
    using k by (simp add: UReplaceN_result rewrite_all_length)
qed

theorem hex_family_directive_witness:
  "0 < length (UReplaceN_matches ''%08X'') \<and> UReplaceN_matches ''%08X'' ! 0 = (0, 4) \<and>
   is_match patNextFormatXSpecifier (slice ''%08X'' 0 4) \<and>
   \<not> is_match patNextFormatPointerSpecifier (slice ''%08X'' 0 4) \<and>
   \<not> is_match patNextFormatBoolSpecifier (slice ''%08X'' 0 4) \<and>
   (\<exists>out u. UReplaceN True ''%08X'' = Inr (out, u) \<and> u ! 0 = 0 \<and>
      slice out 0 4 = slice ''%08X'' 0 4)"
proof -
  have m: "UReplaceN_matches ''%08X'' = [(0, 4)]" by code_simp
  have h3: "is_match patNextFormatXSpecifier (slice ''%08X'' 0 4)" by code_simp
  have h4: "\<not> is_match patNextFormatPointerSpecifier (slice ''%08X'' 0 4)" by code_simp
  have h5: "\<not> is_match patNextFormatBoolSpecifier (slice ''%08X'' 0 4)" by code_simp
  from m have h1: "0 < length (UReplaceN_matches ''%08X'')"
    and h2: "UReplaceN_matches ''%08X'' ! 0 = (0, 4)" by simp_all
  from hex_family_directive [OF h1 h2 h3 h4 h5, of True] show ?thesis
    using h1 h2 h3 h4 h5 by auto
qed

theorem hex_with_flag_ignores_switch:
  "UReplaceN_matches ''%#x'' = [(0, 3)] \<and>
   \<not> is_match patNextFormatPointerSpecifier ''%#x'' \<and>
   \<not> is_match patNextFormatBoolSpecifier ''%#x'' \<and>
   \<not> is_match patNextFormatFSpecifier ''%#x'' \<and>
   \<not> is_match patNextFormatUSpecifier ''%#x'' \<and>
   \<not> is_match patNextFormatISpecifier ''%#x'' \<and>
   UReplaceN True ''%#x'' = Inr (''%#x'', [1]) \<and>
   UReplaceN True ''%#x'' \<noteq> Inr (''%#x'', [0])"
  by code_simp

text \<open>
  Claim C3, as amended. For \<^verbatim>\<open>"val=%d hex=%x"\<close> the string comes back unchanged and the
  kinds are signed for \<^verbatim>\<open>%d\<close> and, for \<^verbatim>\<open>%x\<close>, unsigned when \<^verbatim>\<open>decoder.Unsigned\<close> is
  set and signed when it is not. The second theorem evaluates the function with the
  switch off: the kinds are \<open>[1, 1]\<close>, not \<open>[1, 0]\<close>.
\<close>

theorem val_hex_kinds_follow_switch:
  "UReplaceN Unsigned ''val=%d hex=%x'' =
     Inr (''val=%d hex=%x'', [1, if Unsigned then 0 else 1])"
  by (cases Unsigned; simp; code_simp)

theorem val_hex_signed_when_switch_off:
  "UReplaceN False ''val=%d hex=%x'' = Inr (''val=%d hex=%x'', [1, 1]) \<and>
   UReplaceN False ''val=%d hex=%x'' \<noteq> Inr (''val=%d hex=%x'', [1, 0])"
  by code_simp

text \<open>
  Claim C4, as amended. The text of every directive the loop visits is a percent sign,
  flag characters and a conversion letter, and its kind is decided by the whole text,
  not by the letter alone, in this order: \<^verbatim>\<open>%p\<close> with no flag is a pointer (4);
  \<^verbatim>\<open>%t\<close> with no flag is a bool (3); a letter of \<^verbatim>\<open>eEfFgG\<close> with flags among
  \<^verbatim>\<open>(+-0123456789.#\<close> is a float (2); \<^verbatim>\<open>u\<close> after digits only is unsigned (0); \<^verbatim>\<open>i\<close>
  after digits only is signed (1); a letter of \<^verbatim>\<open>loOxXbpt\<close> after digits only follows
  \<^verbatim>\<open>decoder.Unsigned\<close>; every other directive is signed (1). \<^verbatim>\<open>"flag=%t ptr=%p"\<close> comes
  back unchanged with the kinds \<open>[3, 4]\<close>. The last theorem evaluates the function on
  \<^verbatim>\<open>%5p\<close>, \<^verbatim>\<open>%3t\<close> and \<^verbatim>\<open>%+u\<close>: a pointer, a bool and an unsigned letter that are not
  classified as pointer, bool and unsigned.
\<close>

theorem classification_by_text:
  "(\<exists>out u. UReplaceN Unsigned i = Inr (out, u) \<and>
      length u = length (UReplaceN_matches i) \<and>
      (\<forall>k<length (UReplaceN_matches i).
         case UReplaceN_matches i ! k of
           (a, b) \<Rightarrow>
             hd (slice i a b) = CHR ''%'' \<and>
             (case (directive_flags (slice i a b), directive_letter (slice i a b)) of
                (fl, l) \<Rightarrow>
                  u ! k =
                    (if fl = [] \<and> l = CHR ''p'' then 4
                     else if fl = [] \<and> l = CHR ''t'' then 3
                     else if list_all (\<lambda>c. c \<in> set ''(+-0123456789.#'') fl \<and>
                             l \<in> set ''eEfFgG'' then 2
                     else if list_all (\<lambda>c. c \<in> set ''0123456789'') fl \<and> l = CHR ''u'' then 0
                     else if list_all (\<lambda>c. c \<in> set ''0123456789'') fl \<and> l = CHR ''i'' then 1
                     else if list_all (\<lambda>c. c \<in> set ''0123456789'') fl \<and>
                             l \<in> set ''loOxXbpt'' then (if Unsigned then 0 else 1)
                     else 1)))) \<and>
   UReplaceN Unsigned ''flag=%t ptr=%p'' = Inr (''flag=%t ptr=%p'', [3, 4])"
proof
  let ?u = "map (\<lambda>(a, b). kind_of Unsigned (slice i a b)) (UReplaceN_matches i)"
  have "case UReplaceN_matches i ! k of
           (a, b) \<Rightarrow>
             hd (slice i a b) = CHR ''%'' \<and>
             (case (directive_flags (slice i a b), directive_letter (slice i a b)) of
                (fl, l) \<Rightarrow>
                  ?u ! k =
                    (if fl = [] \<and> l = CHR ''p'' then 4
                     else if fl = [] \<and> l = CHR ''t'' then 3
                     else if list_all (\<lambda>c. c \<in> set ''(+-0123456789.#'') fl \<and>
                             l \<in> set ''eEfFgG'' then 2
                     else if list_all (\<lambda>c. c \<in> set ''0123456789'') fl \<and> l = CHR ''u'' then 0
                     else if list_all (\<lambda>c. c \<in> set ''0123456789'') fl \<and> l = CHR ''i'' then 1
                     else if list_all (\<lambda>c. c \<in> set ''0123456789'') fl \<and>
                             l \<in> set ''loOxXbpt'' then (if Unsigned then 0 else 1)
                     else 1))"
    if k: "k < length (UReplaceN_matches i)" for k
  proof -
    obtain a b where ab: "UReplaceN_matches i ! k = (a, b)"
      by (cases "UReplaceN_matches i ! k")
    with k have mem: "(a, b) \<in> set (UReplaceN_matches i)" by (metis nth_mem)
    from matches_shape(3) [OF mem] obtain fl l where sh: "directive_shape (slice i a b) fl l"
      by blast
    have "?u ! k = kind_of Unsigned (slice i a b)" by (rule UReplaceN_kind_nth [OF k ab])
    then show ?thesis
      unfolding ab kind_of_directive [OF sh]
      by (simp only: directive_shape_parts [OF sh] prod.case simp_thms)
  qed
  then show "\<exists>out u. UReplaceN Unsigned i = Inr (out, u) \<and>
      length u = length (UReplaceN_matches i) \<and>
      (\<forall>k<length (UReplaceN_matches i).
         case UReplaceN_matches i ! k of
           (a, b) \<Rightarrow>
             hd (slice i a b) = CHR ''%'' \<and>
             (case (directive_flags (slice i a b), directive_letter (slice i a b)) of
                (fl, l) \<Rightarrow>
                  u ! k =
                    (if fl = [] \<and> l = CHR ''p'' then 4
                     else if fl = [] \<and> l = CHR ''t'' then 3
                     else if list_all (\<lambda>c. c \<in> set ''(+-0123456789.#'') fl \<and>
                             l \<in> set ''eEfFgG'' then 2
                     else if list_all (\<lambda>c. c \<in> set ''0123456789'') fl \<and> l = CHR ''u'' then 0
                     else if list_all (\<lambda>c. c \<in> set ''0123456789'') fl \<and> l = CHR ''i'' then 1
                     else if list_all (\<lambda>c. c \<in> set ''0123456789'') fl \<and>
                             l \<in> set ''loOxXbpt'' then (if Unsigned then 0 else 1)
                     else 1)))"
    by (simp add: UReplaceN_result)
  show "UReplaceN Unsigned ''flag=%t ptr=%p'' = Inr (''flag=%t ptr=%p'', [3, 4])"
    by (cases Unsigned; simp; code_simp)
qed

theorem classification_by_text_witness:
  "UReplaceN_matches ''%5p%t%p%u%.2f'' = [(0, 3), (3, 5), (5, 7), (7, 9), (9, 13)] \<and>
   (\<exists>out u. UReplaceN True ''%5p%t%p%u%.2f'' = Inr (out, u) \<and> u = [0, 3, 4, 0, 2])"
proof -
  let ?s = "''%5p%t%p%u%.2f''"
  have m: "UReplaceN_matches ?s = [(0, 3), (3, 5), (5, 7), (7, 9), (9, 13)]" by code_simp
  have s: "slice ?s 0 3 = ''%5p''" "slice ?s 3 5 = ''%t''" "slice ?s 5 7 = ''%p''"
    "slice ?s 7 9 = ''%u''" "slice ?s 9 13 = ''%.2f''"
    by code_simp+
  from classification_by_text [of True ?s]
  obtain out u where r: "UReplaceN True ?s = Inr (out, u)" "length u = 5"
    and n: "\<forall>k<5. case [(0, 3), (3, 5), (5, 7), (7, 9), (9, 13)] ! k of
           (a, b) \<Rightarrow>
             hd (slice ?s a b) = CHR ''%'' \<and>
             (case (directive_flags (slice ?s a b), directive_letter (slice ?s a b)) of
                (fl, l) \<Rightarrow>
                  u ! k =
                    (if fl = [] \<and> l = CHR ''p'' then 4
                     else if fl = [] \<and> l = CHR ''t'' then 3
                     else if list_all (\<lambda>c. c \<in> set ''(+-0123456789.#'') fl \<and>
                             l \<in> set ''eEfFgG'' then 2
                     else if list_all (\<lambda>c. c \<in> set ''0123456789'') fl \<and> l = CHR ''u'' then 0
                     else if list_all (\<lambda>c. c \<in> set ''0123456789'') fl \<and> l = CHR ''i'' then 1
                     else if list_all (\<lambda>c. c \<in> set ''0123456789'') fl \<and>
                             l \<in> set ''loOxXbpt'' then (if True then 0 else 1)
                     else 1))"
    unfolding m by auto
  from n [rule_format, of 0] n [rule_format, of 1] n [rule_format, of 2] n [rule_format, of 3]
    n [rule_format, of 4]
  have "u ! 0 = 0" "u ! 1 = 3" "u ! 2 = 4" "u ! 3 = 0" "u ! 4 = 2"
    by (simp_all add: s directive_flags_def directive_letter_def)
  with r(2) have "u = [0, 3, 4, 0, 2]"
    by (intro nth_equalityI) (auto simp: nth_Cons' less_Suc_eq eval_nat_numeral)
  with m r show ?thesis by simp
qed

theorem letter_with_flag_not_classified_by_letter:
  "UReplaceN True ''%5p'' = Inr (''%5p'', [0]) \<and>
   UReplaceN False ''%5p'' = Inr (''%5p'', [1]) \<and>
   UReplaceN True ''%3t'' = Inr (''%3t'', [0]) \<and>
   UReplaceN True ''%+u'' = Inr (''%+u'', [1]) \<and>
   UReplaceN_matches ''%5p'' = [(0, 3)] \<and> UReplaceN_matches ''%3t'' = [(0, 3)] \<and>
   UReplaceN_matches ''%+u'' = [(0, 3)]"
  by code_simp

text \<open>
  Claim C5. A format string with no percent sign at all comes back unchanged, with an
  empty kind sequence.
\<close>

theorem literal_text_unchanged:
  "CHR ''%'' \<notin> set i \<Longrightarrow> UReplaceN Unsigned i = Inr (i, [])"
  by (simp add: UReplaceN_result matches_no_percent ReplaceAll_no_percent)

theorem literal_text_unchanged_witness:
  "CHR ''%'' \<notin> set ''msg: done'' \<and> UReplaceN False ''msg: done'' = Inr (''msg: done'', [])"
  using literal_text_unchanged [of "''msg: done''" False] by simp

text \<open>
  Claim C6. A string of literal text and \<^verbatim>\<open>%%\<close> escapes only comes back unchanged with
  an empty kind sequence; and for every string, no directive the loop visits holds a
  character of a masked \<^verbatim>\<open>%%\<close>, so an escape adds no kind, and the string that is
  scanned has no \<^verbatim>\<open>%%\<close> left.
\<close>

theorem escaped_percent_no_kind:
  "(only_literal_and_escapes i \<longrightarrow> UReplaceN Unsigned i = Inr (i, [])) \<and>
   (\<exists>out u. UReplaceN Unsigned i = Inr (out, u) \<and>
      length u = length (UReplaceN_matches i) \<and>
      (\<forall>(a, b)\<in>set (UReplaceN_matches i). \<forall>j. a \<le> j \<and> j < b \<longrightarrow>
         ReplaceAll i ! j = i ! j \<and> ReplaceAll i ! j \<noteq> CHR ''_'')) \<and>
   (\<forall>j. Suc j < length i \<longrightarrow>
      \<not> (ReplaceAll i ! j = CHR ''%'' \<and> ReplaceAll i ! Suc j = CHR ''%''))"
proof (intro conjI)
  show "only_literal_and_escapes i \<longrightarrow> UReplaceN Unsigned i = Inr (i, [])"
    by (simp add: UReplaceN_result matches_no_percent only_literal_and_escapes_masked)
  show "\<exists>out u. UReplaceN Unsigned i = Inr (out, u) \<and>
      length u = length (UReplaceN_matches i) \<and>
      (\<forall>(a, b)\<in>set (UReplaceN_matches i). \<forall>j. a \<le> j \<and> j < b \<longrightarrow>
         ReplaceAll i ! j = i ! j \<and> ReplaceAll i ! j \<noteq> CHR ''_'')"
    using directive_not_masked [of _ _ i 0]
    by (auto simp: UReplaceN_result UReplaceN_matches_def)
  show "\<forall>j. Suc j < length i \<longrightarrow>
      \<not> (ReplaceAll i ! j = CHR ''%'' \<and> ReplaceAll i ! Suc j = CHR ''%'')"
    using ReplaceAll_no_pair [of _ i] by blast
qed

theorem escaped_percent_no_kind_witness:
  "only_literal_and_escapes ''100%% of %%d'' \<and>
   UReplaceN True ''100%% of %%d'' = Inr (''100%% of %%d'', []) \<and>
   ReplaceAll ''100%% of %%d'' = ''100__ of __d'' \<and>
   ReplaceAll ''%%d%u'' = ''__d%u'' \<and> UReplaceN_matches ''%%d%u'' = [(3, 5)] \<and>
   (\<exists>out u. UReplaceN True ''%%d%u'' = Inr (out, u) \<and> length u = 1) \<and>
   ReplaceAll ''%%d%u'' ! 3 = ''%%d%u'' ! 3 \<and> ReplaceAll ''%%d%u'' ! 4 = ''%%d%u'' ! 4"
proof -
  have h: "only_literal_and_escapes ''100%% of %%d''" by simp
  have m: "ReplaceAll ''100%% of %%d'' = ''100__ of __d''" "ReplaceAll ''%%d%u'' = ''__d%u''"
    by simp_all
  have d: "UReplaceN_matches ''%%d%u'' = [(3, 5)]" by code_simp
  from escaped_percent_no_kind [of "''100%% of %%d''" True] h
  have 1: "UReplaceN True ''100%% of %%d'' = Inr (''100%% of %%d'', [])" by blast
  from escaped_percent_no_kind [of "''%%d%u''" True] d
  obtain out u where 2: "UReplaceN True ''%%d%u'' = Inr (out, u)" "length u = 1"
    and n: "\<forall>j. 3 \<le> j \<and> j < 5 \<longrightarrow> ReplaceAll ''%%d%u'' ! j = ''%%d%u'' ! j"
    by auto
  from n [rule_format, of 3] n [rule_format, of 4]
  have "ReplaceAll ''%%d%u'' ! 3 = ''%%d%u'' ! 3" "ReplaceAll ''%%d%u'' ! 4 = ''%%d%u'' ! 4"
    by simp_all
  with h m d 1 2 show ?thesis by blast
qed

text \<open>
  Claim C7. On a slice of at least 2, 4 and 8 bytes, \<^verbatim>\<open>ReadU16\<close>, \<^verbatim>\<open>ReadU32\<close> and
  \<^verbatim>\<open>ReadU64\<close> do not panic and return the number the first 2, 4 and 8 bytes encode,
  least significant byte first when \<^verbatim>\<open>Endian\<close> is true and most significant byte first
  when it is false.
\<close>

theorem ReadU_value:
  "(2 \<le> length b \<longrightarrow>
      (\<exists>v. ReadU16 p b = Inr v \<and>
         unat v = (if Endian p then le_value (take 2 b) else be_value (take 2 b)))) \<and>
   (4 \<le> length b \<longrightarrow>
      (\<exists>v. ReadU32 p b = Inr v \<and>
         unat v = (if Endian p then le_value (take 4 b) else be_value (take 4 b)))) \<and>
   (8 \<le> length b \<longrightarrow>
      (\<exists>v. ReadU64 p b = Inr v \<and>
         unat v = (if Endian p then le_value (take 8 b) else be_value (take 8 b))))"
  using ReadU16_value [of b p] ReadU32_value [of b p] ReadU64_value [of b p] by blast

theorem ReadU_value_witness:
  "(\<exists>v. ReadU16 \<lparr>IBuf = [], B = [], Endian = True, TriceSize = 0, ParamSpace = 0, SLen = 0\<rparr>
          [0x78, 0x56, 0x34, 0x12, 0, 0, 0, 0x80, 0xff] = Inr v \<and> unat v = 0x5678) \<and>
   (\<exists>v. ReadU32 \<lparr>IBuf = [], B = [], Endian = True, TriceSize = 0, ParamSpace = 0, SLen = 0\<rparr>
          [0x78, 0x56, 0x34, 0x12, 0, 0, 0, 0x80, 0xff] = Inr v \<and> unat v = 0x12345678) \<and>
   (\<exists>v. ReadU64 \<lparr>IBuf = [], B = [], Endian = True, TriceSize = 0, ParamSpace = 0, SLen = 0\<rparr>
          [0x78, 0x56, 0x34, 0x12, 0, 0, 0, 0x80, 0xff] = Inr v \<and>
          unat v = 0x8000000012345678) \<and>
   (\<exists>v. ReadU16 \<lparr>IBuf = [], B = [], Endian = False, TriceSize = 0, ParamSpace = 0, SLen = 0\<rparr>
          [0x78, 0x56, 0x34, 0x12, 0, 0, 0, 0x80, 0xff] = Inr v \<and> unat v = 0x7856) \<and>
   (\<exists>v. ReadU32 \<lparr>IBuf = [], B = [], Endian = False, TriceSize = 0, ParamSpace = 0, SLen = 0\<rparr>
          [0x78, 0x56, 0x34, 0x12, 0, 0, 0, 0x80, 0xff] = Inr v \<and> unat v = 0x78563412) \<and>
   (\<exists>v. ReadU64 \<lparr>IBuf = [], B = [], Endian = False, TriceSize = 0, ParamSpace = 0, SLen = 0\<rparr>
          [0x78, 0x56, 0x34, 0x12, 0, 0, 0, 0x80, 0xff] = Inr v \<and>
          unat v = 0x7856341200000080)"
  using ReadU_value [of "[0x78, 0x56, 0x34, 0x12, 0, 0, 0, 0x80, 0xff]"
      "\<lparr>IBuf = [], B = [], Endian = True, TriceSize = 0, ParamSpace = 0, SLen = 0\<rparr>"]
    ReadU_value [of "[0x78, 0x56, 0x34, 0x12, 0, 0, 0, 0x80, 0xff]"
      "\<lparr>IBuf = [], B = [], Endian = False, TriceSize = 0, ParamSpace = 0, SLen = 0\<rparr>"]
  by (simp add: be_value_def)

text \<open>
  Claim C8, as amended. The result is determined by the format string together with
  the global switch \<^verbatim>\<open>decoder.Unsigned\<close>: the rewritten string and the number of kinds
  are the same for both values of the switch, and a kind differs only by being 0 with
  the switch set and 1 without. The last theorem shows the dependence on the switch:
  the two results for \<^verbatim>\<open>%x\<close> differ.
\<close>

theorem result_determined_by_string_and_switch:
  "\<exists>out u1 u2. UReplaceN True i = Inr (out, u1) \<and> UReplaceN False i = Inr (out, u2) \<and>
     length u1 = length u2 \<and>
     (\<forall>k<length u1. u1 ! k = u2 ! k \<or> (u1 ! k = 0 \<and> u2 ! k = 1))"
proof -
  have "map (\<lambda>(a, b). kind_of True (slice i a b)) (UReplaceN_matches i) ! k =
          map (\<lambda>(a, b). kind_of False (slice i a b)) (UReplaceN_matches i) ! k \<or>
        (map (\<lambda>(a, b). kind_of True (slice i a b)) (UReplaceN_matches i) ! k = 0 \<and>
         map (\<lambda>(a, b). kind_of False (slice i a b)) (UReplaceN_matches i) ! k = 1)"
    if "k < length (UReplaceN_matches i)" for k
    using that kind_of_switch by (simp split: prod.splits)
  then show ?thesis by (simp add: UReplaceN_result)
qed

theorem result_determined_by_string_and_switch_witness:
  "\<exists>out u1 u2. UReplaceN True ''%d %x'' = Inr (out, u1) \<and>
     UReplaceN False ''%d %x'' = Inr (out, u2) \<and> length u1 = length u2"
  using result_determined_by_string_and_switch [of "''%d %x''"] by blast

theorem result_depends_on_global_switch:
  "UReplaceN True ''%x'' \<noteq> UReplaceN False ''%x''"
  by code_simp

text \<open>
  Claim C9. The rewritten string has the length of the input. At the last position of
  a directive the loop visits that is made of a percent sign, decimal digits and \<^verbatim>\<open>u\<close>
  or \<^verbatim>\<open>i\<close>, the input has that letter and the result has \<^verbatim>\<open>d\<close>; at every other
  position the result has the input's character.
\<close>

theorem rewritten_only_at_directive_letters:
  "\<exists>out u. UReplaceN Unsigned i = Inr (out, u) \<and> length out = length i \<and>
     (\<forall>j<length i.
        if \<exists>(a, b)\<in>set (UReplaceN_matches i). j = b - 1 \<and>
              list_all (\<lambda>c. c \<in> set ''0123456789'') (directive_flags (slice i a b)) \<and>
              (directive_letter (slice i a b) = CHR ''u'' \<or>
               directive_letter (slice i a b) = CHR ''i'')
        then (i ! j = CHR ''u'' \<or> i ! j = CHR ''i'') \<and> out ! j = CHR ''d''
        else out ! j = i ! j)"
proof -
  let ?out = "rewrite_all (ReplaceAll i) (UReplaceN_matches i) i"
  have "if \<exists>(a, b)\<in>set (UReplaceN_matches i). j = b - 1 \<and>
              list_all (\<lambda>c. c \<in> set ''0123456789'') (directive_flags (slice i a b)) \<and>
              (directive_letter (slice i a b) = CHR ''u'' \<or>
               directive_letter (slice i a b) = CHR ''i'')
        then (i ! j = CHR ''u'' \<or> i ! j = CHR ''i'') \<and> ?out ! j = CHR ''d''
        else ?out ! j = i ! j" if "j < length i" for j
    using UReplaceN_out_exact [OF that] visited_letter [of _ _ i]
    by (auto split: if_splits)
  then show ?thesis by (simp add: UReplaceN_result rewrite_all_length)
qed

theorem rewritten_only_at_directive_letters_witness:
  "UReplaceN_matches ''unit=%2u%i'' = [(5, 8), (8, 10)] \<and>
   (\<exists>out u. UReplaceN True ''unit=%2u%i'' = Inr (out, u) \<and> length out = 10 \<and>
      out ! 0 = CHR ''u'' \<and> out ! 2 = CHR ''i'' \<and> out ! 6 = CHR ''2'' \<and>
      out ! 7 = CHR ''d'' \<and> out ! 9 = CHR ''d'')"
proof -
  let ?s = "''unit=%2u%i''"
  have m: "UReplaceN_matches ?s = [(5, 8), (8, 10)]" by code_simp
  have s: "slice ?s 5 8 = ''%2u''" "slice ?s 8 10 = ''%i''" by code_simp+
  from rewritten_only_at_directive_letters [of True ?s]
  obtain out u where r: "UReplaceN True ?s = Inr (out, u)" "length out = 10"
    and n: "\<forall>j<10.
        if \<exists>(a, b)\<in>set [(5, 8), (8, 10)]. j = b - 1 \<and>
              list_all (\<lambda>c. c \<in> set ''0123456789'') (directive_flags (slice ?s a b)) \<and>
              (directive_letter (slice ?s a b) = CHR ''u'' \<or>
               directive_letter (slice ?s a b) = CHR ''i'')
        then (?s ! j = CHR ''u'' \<or> ?s ! j = CHR ''i'') \<and> out ! j = CHR ''d''
        else out ! j = ?s ! j"
    unfolding m by auto
  from n [rule_format, of 0] n [rule_format, of 2] n [rule_format, of 6] n [rule_format, of 7]
    n [rule_format, of 9]
  have "out ! 0 = CHR ''u''" "out ! 2 = CHR ''i''" "out ! 6 = CHR ''2''"
    "out ! 7 = CHR ''d''" "out ! 9 = CHR ''d''"
    by (simp_all add: s directive_flags_def directive_letter_def)
  with m r show ?thesis by simp
qed

text \<open>
  Claim C10. The specifier pattern does not match at \<^verbatim>\<open>%s\<close>; and wherever a format
  string has \<^verbatim>\<open>%s\<close>, no directive the loop visits covers either character, so no kind
  comes from it, and both characters are the same in the returned string.
\<close>

theorem percent_s_not_matched:
  "match_here patNextFormatSpecifier (''%s'' @ rest) = None \<and>
   (\<exists>out u. UReplaceN Unsigned i = Inr (out, u) \<and>
      length u = length (UReplaceN_matches i) \<and>
      (\<forall>j. Suc j < length i \<and> i ! j = CHR ''%'' \<and> i ! Suc j = CHR ''s'' \<longrightarrow>
         out ! j = CHR ''%'' \<and> out ! Suc j = CHR ''s'' \<and>
         (\<forall>(a, b)\<in>set (UReplaceN_matches i). b \<le> j \<or> Suc j < a)))"
proof
  show "match_here patNextFormatSpecifier (''%s'' @ rest) = None"
    by (rule match_here_percent_s)
  let ?out = "rewrite_all (ReplaceAll i) (UReplaceN_matches i) i"
  have "?out ! j = CHR ''%'' \<and> ?out ! Suc j = CHR ''s'' \<and>
         (\<forall>(a, b)\<in>set (UReplaceN_matches i). b \<le> j \<or> Suc j < a)"
    if j: "Suc j < length i" and p: "i ! j = CHR ''%''" and s: "i ! Suc j = CHR ''s''" for j
  proof -
    have "?out ! j = i ! j"
      using UReplaceN_out_changed [of j i] j p by auto
    moreover have "?out ! Suc j = i ! Suc j"
      using UReplaceN_out_changed [of "Suc j" i] j s by auto
    moreover have "b \<le> j \<or> Suc j < a" if mem: "(a, b) \<in> set (UReplaceN_matches i)" for a b
    proof (rule ccontr)
      assume "\<not> (b \<le> j \<or> Suc j < a)"
      then have jb: "j < b" and aj: "a \<le> Suc j" by simp_all
      from matches_shape(1) [OF mem] have ab: "a + 2 \<le> b" .
      have in_s: "\<not> (a \<le> Suc j \<and> Suc j < b)"
      proof
        assume "a \<le> Suc j \<and> Suc j < b"
        then have "a \<le> Suc j" "Suc j < b" by simp_all
        from matches_char_cases [OF mem this] s
        show False
          using flag_not_letter(3) [of "CHR ''s''"] letter_not_percent(3) [of "CHR ''s''"]
          by auto
      qed
      with aj have bj: "b \<le> Suc j" by simp
      with jb have "b = Suc j" by simp
      with ab have "a \<le> j" by simp
      from matches_char_cases [OF mem this jb] p
      have "j = a \<or> j = b - 1"
        using flag_not_letter(1) [of "CHR ''%''"] by auto
      moreover have "j \<noteq> a" using \<open>b = Suc j\<close> ab by simp
      moreover have "j = b - 1 \<Longrightarrow> False"
        using matches_char_cases [OF mem \<open>a \<le> j\<close> jb] p \<open>j \<noteq> a\<close>
          flag_not_letter(1) [of "CHR ''%''"] letter_not_percent(1) [of "CHR ''%''"]
        by auto
      ultimately show False by blast
    qed
    ultimately show ?thesis using p s by auto
  qed
  then show "\<exists>out u. UReplaceN Unsigned i = Inr (out, u) \<and>
      length u = length (UReplaceN_matches i) \<and>
      (\<forall>j. Suc j < length i \<and> i ! j = CHR ''%'' \<and> i ! Suc j = CHR ''s'' \<longrightarrow>
         out ! j = CHR ''%'' \<and> out ! Suc j = CHR ''s'' \<and>
         (\<forall>(a, b)\<in>set (UReplaceN_matches i). b \<le> j \<or> Suc j < a))"
    by (simp add: UReplaceN_result)
qed

theorem percent_s_not_matched_witness:
  "UReplaceN_matches ''%s=%u'' = [(3, 5)] \<and>
   (\<exists>out u. UReplaceN True ''%s=%u'' = Inr (out, u) \<and> length u = 1 \<and>
      out ! 0 = CHR ''%'' \<and> out ! 1 = CHR ''s'')"
proof -
  have m: "UReplaceN_matches ''%s=%u'' = [(3, 5)]" by code_simp
  from percent_s_not_matched [of "[]" True "''%s=%u''"]
  obtain out u where r: "UReplaceN True ''%s=%u'' = Inr (out, u)"
    "length u = length (UReplaceN_matches ''%s=%u'')"
    and n: "\<forall>j. Suc j < length ''%s=%u'' \<and> ''%s=%u'' ! j = CHR ''%'' \<and>
               ''%s=%u'' ! Suc j = CHR ''s'' \<longrightarrow>
         out ! j = CHR ''%'' \<and> out ! Suc j = CHR ''s'' \<and>
         (\<forall>(a, b)\<in>set (UReplaceN_matches ''%s=%u''). b \<le> j \<or> Suc j < a)"
    by blast
  from n [rule_format, of 0] have "out ! 0 = CHR ''%'' \<and> out ! 1 = CHR ''s''" by simp
  with r m show ?thesis by simp
qed

end
